theory Spec2Isabelle
  imports Main "HOL-Library.Sublist"
begin

section \<open>Strings of the Go runtime\<close>

text \<open>
  A Go string is a sequence of bytes; \<open>len\<close>, indexing, slicing and the functions of
  package \<open>strings\<close> used by the program all count bytes. A string is therefore a
  \<^typ>\<open>char list\<close>. Go's 64-bit \<open>int\<close> is modelled by \<^typ>\<open>int\<close>. The only arithmetic of
  the program is in \<open>fruncate\<close>, which subtracts \<open>n\<close> from an offset greater than \<open>n\<close>
  and then \<open>m\<close> from the difference: for non-negative \<open>n\<close> and \<open>m\<close> (the program
  passes 10 and 5) no result leaves the 64-bit range, so nothing wraps around. The
  model says nothing about negative \<open>n\<close> or \<open>m\<close> near the 64-bit limits.
\<close>

text \<open>\<open>matches_at s p i\<close>: the bytes of \<open>p\<close> stand in \<open>s\<close> from offset \<open>i\<close> on.\<close>

definition matches_at :: "string \<Rightarrow> string \<Rightarrow> nat \<Rightarrow> bool" where
  "matches_at s p i = (take (length p) (drop i s) = p)"

text \<open>\<open>strings.Index\<close>: the offset of the first instance of \<open>p\<close> in \<open>s\<close>, or \<open>-1\<close>.\<close>

definition Index :: "string \<Rightarrow> string \<Rightarrow> int" where
  "Index s p =
     (case List.find (matches_at s p) [0..<Suc (length s)] of
        None \<Rightarrow> - 1
      | Some i \<Rightarrow> int i)"

text \<open>\<open>strings.LastIndex\<close>: the offset of the last instance of \<open>p\<close> in \<open>s\<close>, or \<open>-1\<close>.\<close>

definition LastIndex :: "string \<Rightarrow> string \<Rightarrow> int" where
  "LastIndex s p =
     (case List.find (matches_at s p) (rev [0..<Suc (length s)]) of
        None \<Rightarrow> - 1
      | Some i \<Rightarrow> int i)"

text \<open>\<open>strings.HasPrefix\<close> and \<open>strings.HasSuffix\<close>.\<close>

definition HasPrefix :: "string \<Rightarrow> string \<Rightarrow> bool" where
  "HasPrefix s pre = (length pre \<le> length s \<and> take (length pre) s = pre)"

definition HasSuffix :: "string \<Rightarrow> string \<Rightarrow> bool" where
  "HasSuffix s suf = (length suf \<le> length s \<and> drop (length s - length suf) s = suf)"

text \<open>
  The slice expression \<open>s[lo:hi]\<close>. Go panics unless \<open>0 \<le> lo \<le> hi \<le> len(s)\<close>;
  the panic is the value \<open>None\<close>. \<open>s[lo:]\<close> is \<open>s[lo:len(s)]\<close>.
\<close>

definition slice :: "string \<Rightarrow> int \<Rightarrow> int \<Rightarrow> string option" where
  "slice s lo hi =
     (if 0 \<le> lo \<and> lo \<le> hi \<and> hi \<le> int (length s)
      then Some (take (nat hi - nat lo) (drop (nat lo) s))
      else None)"

definition slice_from :: "string \<Rightarrow> int \<Rightarrow> string option" where
  "slice_from s lo = slice s lo (int (length s))"

section \<open>Title and subtitle\<close>

text \<open>\<open>withoutMd\<close> (osearch.go, lines 93 to 98).\<close>

definition withoutMd :: "string \<Rightarrow> string option" where
  "withoutMd filename =
     (if HasSuffix filename ''.md''
      then slice filename 0 (int (length filename) - 3)
      else Some filename)"

text \<open>
  \<open>fruncate\<close> (osearch.go, lines 105 to 117): truncate something from the front.
  The locals \<open>max\<close> and \<open>min\<close> of the source are \<open>max'\<close> and \<open>min'\<close> here.
\<close>

definition fruncate :: "string \<Rightarrow> string \<Rightarrow> int \<Rightarrow> int \<Rightarrow> string option" where
  "fruncate s p n m =
     (let index = Index s p in
      if index > n then
        (let max' = index - n;
             min' = max' - m
         in case slice s 0 max' of
              None \<Rightarrow> None
            | Some front \<Rightarrow>
                (let breakIndex = LastIndex front '' '' in
                 if breakIndex > 0 \<and> breakIndex \<ge> min'
                 then slice_from s (breakIndex + 1)
                 else slice_from s max'))
      else Some s)"


section \<open>Paths and the application URL\<close>

text \<open>
  \<open>filepath.Base\<close> on a system whose separator is \<open>/\<close> (the program runs the tools of
  \<open>/usr/local/bin\<close>): the last element of the path, after trailing slashes are
  dropped; \<open>.\<close> for the empty path and \<open>/\<close> for a path of slashes only.
\<close>

definition Base :: "string \<Rightarrow> string" where
  "Base path =
     (if path = [] then ''.''
      else
        (let stripped = rev (dropWhile (\<lambda>c. c = CHR ''/'') (rev path));
             element = rev (takeWhile (\<lambda>c. c \<noteq> CHR ''/'') (rev stripped))
         in if element = [] then ''/'' else element))"

text \<open>
  \<open>url.PathEscape\<close>. \<open>shouldEscape\<close> is the library's predicate in the mode
  \<open>encodePathSegment\<close>: letters, digits and \<open>-_.~\<close> stay, of the reserved characters
  \<open>$&+,/:;=?@\<close> only \<open>/ ; , ?\<close> are escaped, every other byte is escaped. An escaped
  byte is written \<open>%\<close> and two upper-case hexadecimal digits.
\<close>

definition isAlnum :: "char \<Rightarrow> bool" where
  "isAlnum c =
     (let n = (of_char c :: nat)
      in (97 \<le> n \<and> n \<le> 122) \<or> (65 \<le> n \<and> n \<le> 90) \<or> (48 \<le> n \<and> n \<le> 57))"

definition shouldEscape :: "char \<Rightarrow> bool" where
  "shouldEscape c =
     (if isAlnum c then False
      else if c \<in> set ''-_.~'' then False
      else if c \<in> set ''$&+,/:;=?@''
        then (c = CHR ''/'' \<or> c = CHR '';'' \<or> c = CHR '','' \<or> c = CHR ''?'')
      else True)"

definition upperhex :: string where
  "upperhex = ''0123456789ABCDEF''"

definition escape_byte :: "char \<Rightarrow> string" where
  "escape_byte c =
     (if shouldEscape c
      then [CHR ''%'', upperhex ! (of_char c div 16), upperhex ! (of_char c mod 16)]
      else [c])"

definition PathEscape :: "string \<Rightarrow> string" where
  "PathEscape s = concat (map escape_byte s)"

text \<open>
  Percent-decoding, as \<open>url.PathUnescape\<close> does it: \<open>%\<close> and two hexadecimal digits
  stand for one byte, any other byte stands for itself, and a \<open>%\<close> that is not followed
  by two hexadecimal digits is an error (\<open>None\<close>).
\<close>

definition ishex :: "char \<Rightarrow> bool" where
  "ishex c =
     (let n = (of_char c :: nat)
      in (48 \<le> n \<and> n \<le> 57) \<or> (97 \<le> n \<and> n \<le> 102) \<or> (65 \<le> n \<and> n \<le> 70))"

definition unhex :: "char \<Rightarrow> nat" where
  "unhex c =
     (let n = (of_char c :: nat)
      in if 48 \<le> n \<and> n \<le> 57 then n - 48
         else if 97 \<le> n \<and> n \<le> 102 then n - 97 + 10
         else if 65 \<le> n \<and> n \<le> 70 then n - 65 + 10
         else 0)"

fun PathUnescape :: "string \<Rightarrow> string option" where
  "PathUnescape [] = Some []"
| "PathUnescape (c # cs) =
     (if c = CHR ''%'' then
        (case cs of
           h1 # h2 # rest \<Rightarrow>
             (if ishex h1 \<and> ishex h2
              then map_option ((#) (char_of (unhex h1 * 16 + unhex h2))) (PathUnescape rest)
              else None)
         | _ \<Rightarrow> None)
      else map_option ((#) c) (PathUnescape cs))"

text \<open>\<open>asObsidianUrl\<close> (osearch.go, lines 100 to 102): \<open>%s\<close> copies a string as it is.\<close>

definition asObsidianUrl :: "string \<Rightarrow> string \<Rightarrow> string" where
  "asObsidianUrl path vault =
     ''obsidian://open?vault='' @ vault @ ''&file='' @ PathEscape path"

section \<open>Results and failures\<close>

text \<open>
  \<open>AlfredResult\<close> and \<open>AlfredResults\<close> (osearch.go, lines 26 to 35). A Go slice may be
  \<open>nil\<close>, which \<open>json.MarshalIndent\<close> writes differently from an empty slice, so
  \<open>Items\<close> is an optional list with \<open>None\<close> for \<open>nil\<close>. \<open>zero_AlfredResult\<close> is the
  zero value that \<open>make\<close> puts in every slot of a new slice.
\<close>

record AlfredResult =
  Type :: string
  Title :: string
  Subtitle :: string
  Arg :: string

record AlfredResults =
  Items :: "AlfredResult list option"

definition zero_AlfredResult :: AlfredResult where
  "zero_AlfredResult = \<lparr>Type = '''', Title = '''', Subtitle = '''', Arg = ''''\<rparr>"

text \<open>
  \<open>RipGrepResult\<close> (osearch.go, lines 37 to 47), flattened: \<open>Type_rg\<close> is \<open>Type\<close>,
  \<open>Data_Path_Text\<close> is \<open>Data.Path.Text\<close> and \<open>Data_Lines_Text\<close> is \<open>Data.Lines.Text\<close>.
\<close>

record RipGrepResult =
  Type_rg :: string
  Data_Path_Text :: string
  Data_Lines_Text :: string

definition zero_RipGrepResult :: RipGrepResult where
  "zero_RipGrepResult = \<lparr>Type_rg = '''', Data_Path_Text = '''', Data_Lines_Text = ''''\<rparr>"

text \<open>\<open>ObsidianVault\<close> (osearch.go, lines 16 to 20).\<close>

record ObsidianVault =
  Path :: string
  Ts :: int
  Open :: bool

text \<open>
  The program stops either in \<open>log.Fatal\<close> or \<open>log.Fatalf\<close>, which print a message and
  exit with status 1, or in a run-time panic. Nothing is written to standard output
  in either case.
\<close>

datatype failure = Fatal string | Panic

text \<open>
  What the program reads from outside, and the library functions left open. Each
  field gives the outcome of one call:
  \<^item> \<open>homeDir\<close>: \<open>os.UserHomeDir\<close> (its error is dropped by the source);
  \<^item> \<open>pathJoin\<close>: \<open>filepath.Join\<close>;
  \<^item> \<open>readFile\<close>: \<open>ioutil.ReadFile\<close>, \<open>None\<close> for an error;
  \<^item> \<open>unmarshalConfig\<close>: \<open>json.Unmarshal\<close> into an \<open>ObsidianConfig\<close>, \<open>None\<close> for an
    error, else the entries of \<open>Vaults\<close> in the order in which the \<open>range\<close> loop of
    \<open>getDefaults\<close> visits them (Go leaves that order open);
  \<^item> \<open>chdir\<close>: whether \<open>os.Chdir\<close> succeeds;
  \<^item> \<open>fd\<close>: \<open>exec.Command("/usr/local/bin/fd", args).Output()\<close> in a directory, the
    text of the error or the captured standard output;
  \<^item> \<open>rg\<close>: the same for \<open>/usr/local/bin/rg\<close>, where the source drops the error and
    keeps the captured output;
  \<^item> \<open>unmarshal\<close>: \<open>json.Unmarshal\<close> of one line into the variable \<open>rgr\<close>, which
    holds a value already: \<open>None\<close> for an error, else the new value of \<open>rgr\<close>
    (fields that the line does not mention keep what they held).
\<close>

record world =
  homeDir :: string
  pathJoin :: "string \<Rightarrow> string \<Rightarrow> string"
  readFile :: "string \<Rightarrow> string option"
  unmarshalConfig :: "string \<Rightarrow> (string \<times> ObsidianVault) list option"
  chdir :: "string \<Rightarrow> bool"
  fd :: "string \<Rightarrow> string list \<Rightarrow> string + string"
  rg :: "string \<Rightarrow> string list \<Rightarrow> string"
  unmarshal :: "string \<Rightarrow> RipGrepResult \<Rightarrow> RipGrepResult option"

text \<open>
  The repository holds the program twice: \<open>osearch.go\<close>, which looks the vault up in
  the registry file of the application (\<open>Registry\<close>), and an earlier file without the
  lookup (\<open>Plain\<close>). They differ in \<open>main\<close> and in the arguments given to the tools.
\<close>

datatype variant = Registry | Plain

section \<open>Filename mode\<close>

text \<open>
  \<open>strings.Split\<close> for a separator of one byte, which is what both call sites pass:
  the pieces between the separators, one more than there are separators.
\<close>

fun Split :: "string \<Rightarrow> char \<Rightarrow> string list" where
  "Split [] sep = [[]]"
| "Split (c # cs) sep =
     (if c = sep then [] # Split cs sep
      else (case Split cs sep of [] \<Rightarrow> [[c]] | t # ts \<Rightarrow> (c # t) # ts))"

text \<open>
  The body of the second loop of \<open>findMatchingFiles\<close> (osearch.go, lines 80 to 88):
  the value of \<open>alfredResults[index]\<close> after the iteration for \<open>match\<close>. The slot of an
  empty \<open>match\<close> keeps the zero value of \<open>make\<close>.
\<close>

definition file_result :: "string \<Rightarrow> string \<Rightarrow> failure + AlfredResult" where
  "file_result vault match =
     (if length match > 0 then
        (case withoutMd (Base match) of
           None \<Rightarrow> Inl Panic
         | Some title \<Rightarrow>
             Inr \<lparr>Type = ''default'', Title = title, Subtitle = '''',
                  Arg = asObsidianUrl match vault\<rparr>)
      else Inr zero_AlfredResult)"

fun file_results :: "string \<Rightarrow> string list \<Rightarrow> failure + AlfredResult list" where
  "file_results vault [] = Inr []"
| "file_results vault (match # rest) =
     (case file_result vault match of
        Inl e \<Rightarrow> Inl e
      | Inr r \<Rightarrow>
          (case file_results vault rest of
             Inl e \<Rightarrow> Inl e
           | Inr rs \<Rightarrow> Inr (r # rs)))"

text \<open>
  \<open>findMatchingFiles\<close> from the split of the output on (osearch.go, lines 71 to 90):
  \<open>results\<close> is a copy of \<open>output\<close>, and \<open>alfredResults\<close> has one slot for each of its
  elements.
\<close>

definition findMatchingFiles_results :: "string \<Rightarrow> string \<Rightarrow> failure + AlfredResults" where
  "findMatchingFiles_results out vault =
     (let output = Split out (CHR 0x00);
          results = map (\<lambda>filename. filename) output
      in case file_results vault results of
           Inl e \<Rightarrow> Inl e
         | Inr alfredResults \<Rightarrow> Inr \<lparr>Items = Some alfredResults\<rparr>)"

definition fd_args :: "variant \<Rightarrow> string \<Rightarrow> string list" where
  "fd_args v searchTerm =
     (case v of
        Registry \<Rightarrow> [''-0'', ''--type=f'', searchTerm]
      | Plain \<Rightarrow> [''-0'', ''--type=f'', ''--glob'', searchTerm])"

text \<open>\<open>findMatchingFiles\<close> (osearch.go, lines 57 to 91).\<close>

definition findMatchingFiles ::
  "variant \<Rightarrow> world \<Rightarrow> string \<Rightarrow> string \<Rightarrow> string \<Rightarrow> failure + AlfredResults" where
  "findMatchingFiles v w searchTerm directory vault =
     (if \<not> chdir w directory then Inl (Fatal (''no such directory '' @ directory))
      else
        (case fd w directory (fd_args v searchTerm) of
           Inl err \<Rightarrow> Inl (Fatal err)
         | Inr out \<Rightarrow> findMatchingFiles_results out vault))"

section \<open>Content mode\<close>

text \<open>
  The loop of \<open>grepMatchingFiles\<close> over the lines (osearch.go, lines 153 to 178), with
  the three variables it updates: \<open>results\<close>, \<open>rgr\<close> and \<open>alreadyFound\<close>. \<open>results\<close>
  starts as the \<open>nil\<close> slice, and \<open>append\<close> to it gives a slice of one element.
\<close>

definition append_slice :: "'a list option \<Rightarrow> 'a \<Rightarrow> 'a list option" where
  "append_slice xs x = (case xs of None \<Rightarrow> Some [x] | Some ys \<Rightarrow> Some (ys @ [x]))"

fun grep_loop ::
  "world \<Rightarrow> string \<Rightarrow> string \<Rightarrow> string list \<Rightarrow>
   AlfredResult list option \<Rightarrow> RipGrepResult \<Rightarrow> (string \<rightharpoonup> bool) \<Rightarrow>
   failure + AlfredResult list option" where
  "grep_loop w searchTerm vault [] results rgr alreadyFound = Inr results"
| "grep_loop w searchTerm vault (line # lines) results rgr alreadyFound =
     (if \<not> HasPrefix line ''{'' then
        grep_loop w searchTerm vault lines results rgr alreadyFound
      else
        (case unmarshal w line rgr of
           None \<Rightarrow> Inl (Fatal (''could not parse '' @ line))
         | Some rgr' \<Rightarrow>
             (if Type_rg rgr' = ''match'' then
                (let filename = Data_Path_Text rgr' in
                 if alreadyFound filename \<noteq> None then
                   grep_loop w searchTerm vault lines results rgr' alreadyFound
                 else
                   (case withoutMd (Base filename) of
                      None \<Rightarrow> Inl Panic
                    | Some title \<Rightarrow>
                        (case fruncate (Data_Lines_Text rgr') searchTerm 10 5 of
                           None \<Rightarrow> Inl Panic
                         | Some subtitle \<Rightarrow>
                             (let result = \<lparr>Type = ''default'', Title = title,
                                             Subtitle = subtitle,
                                             Arg = asObsidianUrl filename vault\<rparr>
                              in grep_loop w searchTerm vault lines
                                   (append_slice results result) rgr'
                                   (alreadyFound(filename \<mapsto> True))))))
              else grep_loop w searchTerm vault lines results rgr' alreadyFound)))"

text \<open>\<open>grepMatchingFiles\<close> from the split of the output on (osearch.go, lines 148 to 183).\<close>

definition grepMatchingFiles_results ::
  "world \<Rightarrow> string \<Rightarrow> string \<Rightarrow> string \<Rightarrow> failure + AlfredResults" where
  "grepMatchingFiles_results w searchTerm vault out =
     (let lines = Split out (CHR 0x0A)
      in case grep_loop w searchTerm vault lines None zero_RipGrepResult Map.empty of
           Inl e \<Rightarrow> Inl e
         | Inr results \<Rightarrow> Inr \<lparr>Items = results\<rparr>)"

definition rg_args :: "variant \<Rightarrow> string \<Rightarrow> string list" where
  "rg_args v searchTerm =
     (case v of
        Registry \<Rightarrow> [''--json'', ''--ignore-case'', ''--sortr'', ''modified'', searchTerm]
      | Plain \<Rightarrow> [''--json'', ''--sortr'', ''modified'', searchTerm])"

text \<open>\<open>grepMatchingFiles\<close> (osearch.go, lines 139 to 183).\<close>

definition grepMatchingFiles ::
  "variant \<Rightarrow> world \<Rightarrow> string \<Rightarrow> string \<Rightarrow> string \<Rightarrow> failure + AlfredResults" where
  "grepMatchingFiles v w searchTerm directory vault =
     (if \<not> chdir w directory then Inl (Fatal (''no such directory '' @ directory))
      else grepMatchingFiles_results w searchTerm vault
             (rg w directory (rg_args v searchTerm)))"

section \<open>Serialization\<close>

text \<open>
  \<open>json.MarshalIndent(results, "", "  ")\<close> for an \<open>AlfredResults\<close>. A string is written
  between double quotes by the encoder of \<open>encoding/json\<close>, which escapes HTML
  characters unless told otherwise: a double quote and a backslash get a backslash
  in front; line feed, carriage return and tab become a backslash and \<open>n\<close>, \<open>r\<close> or
  \<open>t\<close>; the other bytes below \<open>0x20\<close> and \<open><\<close>, \<open>>\<close>, \<open>&\<close> become a backslash,
  \<open>u00\<close> and two lower-case hexadecimal digits; the line separators U+2028 and U+2029
  become a backslash and \<open>u2028\<close> or \<open>u2029\<close>. The strings are taken to be valid
  UTF-8 (the encoder writes the replacement character for a byte that is not), so
  every other byte from \<open>0x80\<close> on is copied. (Releases of Go from 1.22 on write a
  backslash and \<open>b\<close> or \<open>f\<close> for the bytes 8 and 12.)
\<close>

definition json_hex :: string where
  "json_hex = ''0123456789abcdef''"

definition json_byte :: "char \<Rightarrow> string" where
  "json_byte b =
     (let n = (of_char b :: nat) in
      if b = CHR 0x5C \<or> b = CHR 0x22 then [CHR 0x5C, b]
      else if b = CHR 0x0A then [CHR 0x5C, CHR ''n'']
      else if b = CHR 0x0D then [CHR 0x5C, CHR ''r'']
      else if b = CHR 0x09 then [CHR 0x5C, CHR ''t'']
      else if n < 32 \<or> b = CHR ''<'' \<or> b = CHR ''>'' \<or> b = CHR ''&''
        then [CHR 0x5C] @ ''u00'' @ [json_hex ! (n div 16), json_hex ! (n mod 16)]
      else [b])"

fun json_bytes :: "string \<Rightarrow> string" where
  "json_bytes [] = []"
| "json_bytes (b # bs) =
     (if b = CHR 0xE2 \<and> take 2 bs = [CHR 0x80, CHR 0xA8]
        then [CHR 0x5C] @ ''u2028'' @ json_bytes (drop 2 bs)
      else if b = CHR 0xE2 \<and> take 2 bs = [CHR 0x80, CHR 0xA9]
        then [CHR 0x5C] @ ''u2029'' @ json_bytes (drop 2 bs)
      else json_byte b @ json_bytes bs)"

definition json_string :: "string \<Rightarrow> string" where
  "json_string s = [CHR 0x22] @ json_bytes s @ [CHR 0x22]"

text \<open>One field of a result on its line, at the third level of indentation.\<close>

definition json_field :: "string \<Rightarrow> string \<Rightarrow> string" where
  "json_field name val = ''      '' @ json_string name @ '': '' @ json_string val"

definition json_item :: "AlfredResult \<Rightarrow> string" where
  "json_item r =
     ''    {'' @ [CHR 0x0A] @
     json_field ''type'' (Type r) @ '','' @ [CHR 0x0A] @
     json_field ''title'' (Title r) @ '','' @ [CHR 0x0A] @
     json_field ''subtitle'' (Subtitle r) @ '','' @ [CHR 0x0A] @
     json_field ''arg'' (Arg r) @ [CHR 0x0A] @
     ''    }''"

fun json_items :: "AlfredResult list \<Rightarrow> string" where
  "json_items [] = []"
| "json_items [r] = json_item r"
| "json_items (r # rs) = json_item r @ '','' @ [CHR 0x0A] @ json_items rs"

definition MarshalIndent :: "AlfredResults \<Rightarrow> string" where
  "MarshalIndent results =
     ''{'' @ [CHR 0x0A] @ ''  '' @ json_string ''items'' @ '': '' @
     (case Items results of
        None \<Rightarrow> ''null''
      | Some [] \<Rightarrow> ''[]''
      | Some rs \<Rightarrow> ''['' @ [CHR 0x0A] @ json_items rs @ [CHR 0x0A] @ ''  ]'') @
     [CHR 0x0A] @ ''}''"

text \<open>
  \<open>strings.Replace(s, old, new, -1)\<close> for a non-empty \<open>old\<close> (the call site passes six
  bytes): every instance of \<open>old\<close>, found from left to right without overlap, is
  replaced by \<open>new\<close>.
\<close>

fun Replace :: "string \<Rightarrow> string \<Rightarrow> string \<Rightarrow> string" where
  "Replace [] old new = []"
| "Replace (c # cs) old new =
     (if old \<noteq> [] \<and> take (length old) (c # cs) = old
      then new @ Replace (drop (length old - 1) cs) old new
      else c # Replace cs old new)"

text \<open>
  The end of \<open>main\<close> (osearch.go, lines 220 to 223): what \<open>fmt.Println\<close> writes to
  standard output. The pattern of the replacement is a backslash and \<open>u0026\<close>.
\<close>

definition main_output :: "AlfredResults \<Rightarrow> string" where
  "main_output results =
     Replace (MarshalIndent results) ([CHR 0x5C] @ ''u0026'') ''&'' @ [CHR 0x0A]"

text \<open>
  A condition that every JSON text meets (RFC 8259): a backslash stands only inside
  a string, where it starts an escape, so it is followed by a double quote, a
  backslash or one of \<open>/ b f n r t u\<close>.
\<close>

fun json_escapes_ok :: "string \<Rightarrow> bool" where
  "json_escapes_ok [] = True"
| "json_escapes_ok [c] = (c \<noteq> CHR 0x5C)"
| "json_escapes_ok (c # d # cs) =
     (if c = CHR 0x5C
      then d \<in> set ([CHR 0x22, CHR 0x5C] @ ''/bfnrtu'') \<and> json_escapes_ok cs
      else json_escapes_ok (d # cs))"

section \<open>The entry point\<close>

text \<open>
  The values that \<open>flag.Parse\<close> leaves behind: the three flags and \<open>flag.Args()\<close>.
\<close>

record invocation =
  grepMode :: bool
  vaultName :: string
  vaultPath :: string
  args :: "string list"

text \<open>
  \<open>expandHome\<close> (osearch.go, lines 49 to 55); \<open>filename[2:]\<close> is in range when the
  name starts with the two bytes \<open>~/\<close>.
\<close>

definition expandHome :: "world \<Rightarrow> string \<Rightarrow> string" where
  "expandHome w filename =
     (if HasPrefix filename ''~/''
      then (let dir = homeDir w in pathJoin w dir (drop 2 filename))
      else filename)"

text \<open>
  \<open>getDefaults\<close> (osearch.go, lines 119 to 137); \<open>first_open\<close> is its \<open>range\<close> loop
  with the final \<open>return "", ""\<close>.
\<close>

fun first_open :: "(string \<times> ObsidianVault) list \<Rightarrow> string \<times> string" where
  "first_open [] = ('''', '''')"
| "first_open ((vaultId, vault) # rest) =
     (if Open vault then (vaultId, Path vault) else first_open rest)"

definition getDefaults :: "world \<Rightarrow> string \<Rightarrow> failure + string \<times> string" where
  "getDefaults w obsidianConfig =
     (case readFile w obsidianConfig of
        None \<Rightarrow> Inl (Fatal (''could not open '' @ obsidianConfig))
      | Some content \<Rightarrow>
          (case unmarshalConfig w content of
             None \<Rightarrow> Inl (Fatal (''Could not parse '' @ content))
           | Some vaults \<Rightarrow> Inr (first_open vaults)))"

definition ObsidianConfigFile :: string where
  "ObsidianConfigFile = ''~/Library/Application Support/obsidian/obsidian.json''"

text \<open>\<open>strings.Join\<close>.\<close>

fun Join :: "string list \<Rightarrow> string \<Rightarrow> string" where
  "Join [] sep = []"
| "Join [a] sep = a"
| "Join (a # b # rest) sep = a @ sep @ Join (b # rest) sep"

text \<open>
  \<open>main\<close> from the search term on (osearch.go, lines 206 to 223), which both files
  share, for the vault name and path that the lines before have settled. \<open>prog\<close> is
  \<open>os.Args[0]\<close>. The result is the failure or the text written to standard output.
\<close>

definition main_search ::
  "variant \<Rightarrow> world \<Rightarrow> string \<Rightarrow> invocation \<Rightarrow> string \<Rightarrow> string \<Rightarrow> failure + string" where
  "main_search v w prog cmd vaultName' vaultPath' =
     (if length (args cmd) \<ge> 1 then
        (let searchTerm = Join (args cmd) '' '' in
         case (if grepMode cmd
               then grepMatchingFiles v w searchTerm (expandHome w vaultPath') vaultName'
               else findMatchingFiles v w searchTerm (expandHome w vaultPath') vaultName') of
           Inl e \<Rightarrow> Inl e
         | Inr results \<Rightarrow> Inr (main_output results))
      else Inl (Fatal (''Usage: '' @ prog @
                 '' [--grep] --vault vaultname --path vaultpath searchterm'')))"

text \<open>
  \<open>main\<close>: lines 195 to 204 of osearch.go for \<open>Registry\<close>, lines 164 to 172 of the
  earlier file for \<open>Plain\<close>, then the common part.
\<close>

definition main :: "variant \<Rightarrow> world \<Rightarrow> string \<Rightarrow> invocation \<Rightarrow> failure + string" where
  "main v w prog cmd =
     (case v of
        Registry \<Rightarrow>
          (case getDefaults w (expandHome w ObsidianConfigFile) of
             Inl e \<Rightarrow> Inl e
           | Inr (defaultVault, defaultPath) \<Rightarrow>
               main_search v w prog cmd
                 (if length (vaultName cmd) = 0 then defaultVault else vaultName cmd)
                 (if length (vaultPath cmd) = 0 then defaultPath else vaultPath cmd))
      | Plain \<Rightarrow>
          (if length (vaultName cmd) = 0
             then Inl (Fatal ''vault name must be specified with --vault'')
           else if length (vaultPath cmd) = 0
             then Inl (Fatal ''vault path must be specified with --path'')
           else main_search v w prog cmd (vaultName cmd) (vaultPath cmd)))"

section \<open>Notions of the specification\<close>

text \<open>The elements of a slice, \<open>nil\<close> having none.\<close>

definition slice_list :: "'a list option \<Rightarrow> 'a list" where
  "slice_list xs = (case xs of None \<Rightarrow> [] | Some ys \<Rightarrow> ys)"

text \<open>
  The records of a content-search stream: the values decoded from the lines that
  start with \<open>{\<close>, in the order of the stream, each decoded into the variable that
  holds the record before. \<open>None\<close> when one of these lines fails to decode.
\<close>

fun decoded :: "world \<Rightarrow> RipGrepResult \<Rightarrow> string list \<Rightarrow> RipGrepResult list option" where
  "decoded w rgr [] = Some []"
| "decoded w rgr (line # lines) =
     (if \<not> HasPrefix line ''{'' then decoded w rgr lines
      else
        (case unmarshal w line rgr of
           None \<Rightarrow> None
         | Some rgr' \<Rightarrow> map_option ((#) rgr') (decoded w rgr' lines)))"

definition is_match :: "RipGrepResult \<Rightarrow> bool" where
  "is_match r = (Type_rg r = ''match'')"

text \<open>
  The dedup set of the specification: of the match records, those whose path is
  neither in the set \<open>seen\<close> nor carried by an earlier record of the list.
\<close>

fun first_new :: "string set \<Rightarrow> RipGrepResult list \<Rightarrow> RipGrepResult list" where
  "first_new seen [] = []"
| "first_new seen (r # rs) =
     (if Data_Path_Text r \<in> seen then first_new seen rs
      else r # first_new (insert (Data_Path_Text r) seen) rs)"

definition first_per_path :: "RipGrepResult list \<Rightarrow> RipGrepResult list" where
  "first_per_path rs = first_new {} rs"

text \<open>
  The result item of one match record: the title from the base name of its path,
  the subtitle from its line, the target from its path.
\<close>

definition match_result :: "string \<Rightarrow> string \<Rightarrow> RipGrepResult \<Rightarrow> AlfredResult option" where
  "match_result searchTerm vault r =
     (case withoutMd (Base (Data_Path_Text r)) of
        None \<Rightarrow> None
      | Some title \<Rightarrow>
          (case fruncate (Data_Lines_Text r) searchTerm 10 5 of
             None \<Rightarrow> None
           | Some subtitle \<Rightarrow>
               Some \<lparr>Type = ''default'', Title = title, Subtitle = subtitle,
                     Arg = asObsidianUrl (Data_Path_Text r) vault\<rparr>))"

section \<open>Sample runs\<close>

text \<open>
  A line of the content-search tool for a record, and a world whose tool prints
  \<open>out\<close> and whose decoder knows the lines of the records of a table (any other
  line that starts with \<open>{\<close> is malformed). The registry file of this world has no
  vault, and only the directory \<open>/vault\<close> exists.
\<close>

definition rg_line :: "RipGrepResult \<Rightarrow> string" where
  "rg_line r =
     ''{'' @ json_string ''type'' @ '':'' @ json_string (Type_rg r) @ '','' @
     json_string ''data'' @ '':{'' @
     json_string ''path'' @ '':{'' @ json_string ''text'' @ '':'' @
       json_string (Data_Path_Text r) @ ''},'' @
     json_string ''lines'' @ '':{'' @ json_string ''text'' @ '':'' @
       json_string (Data_Lines_Text r) @ ''}}}''"

definition sample_world :: "RipGrepResult list \<Rightarrow> string \<Rightarrow> world" where
  "sample_world table out =
     \<lparr>homeDir = ''/Users/me'',
      pathJoin = (\<lambda>dir name. dir @ ''/'' @ name),
      readFile = (\<lambda>name. Some ''{}''),
      unmarshalConfig = (\<lambda>content. Some []),
      chdir = (\<lambda>directory. directory = ''/vault''),
      fd = (\<lambda>directory arguments. Inr out),
      rg = (\<lambda>directory arguments. out),
      unmarshal = (\<lambda>line rgr. map_of (map (\<lambda>r. (rg_line r, r)) table) line)\<rparr>"

definition sample_records :: "RipGrepResult list" where
  "sample_records =
     [\<lparr>Type_rg = ''begin'', Data_Path_Text = ''notes/Plan.md'', Data_Lines_Text = ''''\<rparr>,
      \<lparr>Type_rg = ''match'', Data_Path_Text = ''notes/Plan.md'',
        Data_Lines_Text = ''lazy start''\<rparr>,
      \<lparr>Type_rg = ''match'', Data_Path_Text = ''notes/Plan.md'',
        Data_Lines_Text = ''The quick brown fox jumps over the lazy dog''\<rparr>,
      \<lparr>Type_rg = ''match'', Data_Path_Text = ''todo.txt'',
        Data_Lines_Text = ''never be lazy''\<rparr>]"

text \<open>The stream of the sample records, with an empty line in it and a last line feed.\<close>

definition sample_stream :: string where
  "sample_stream =
     rg_line (sample_records ! 0) @ [CHR 0x0A] @
     rg_line (sample_records ! 1) @ [CHR 0x0A] @ [CHR 0x0A] @
     rg_line (sample_records ! 2) @ [CHR 0x0A] @
     rg_line (sample_records ! 3) @ [CHR 0x0A]"

text \<open>
  A match record whose line holds a backslash followed by \<open>u0026\<close>, and the result
  set of a search for \<open>write\<close> that finds it in the vault \<open>work\<close>.
\<close>

definition escaped_line_record :: RipGrepResult where
  "escaped_line_record =
     \<lparr>Type_rg = ''match'', Data_Path_Text = ''json.md'',
      Data_Lines_Text = ''write '' @ [CHR 0x5C] @ ''u0026 for &''\<rparr>"

definition escaped_line_results :: AlfredResults where
  "escaped_line_results =
     \<lparr>Items = Some
        [\<lparr>Type = ''default'', Title = ''json'',
          Subtitle = ''write '' @ [CHR 0x5C] @ ''u0026 for &'',
          Arg = ''obsidian://open?vault=work&file=json.md''\<rparr>]\<rparr>"

section \<open>Facts about the string functions\<close>

lemma find_upt_None: "List.find P [0..<n] = None \<longleftrightarrow> (\<forall>i<n. \<not> P i)"
  by (auto simp: find_None_iff)

lemma find_upt_Some:
  "List.find P [0..<n] = Some i \<longleftrightarrow> i < n \<and> P i \<and> (\<forall>j<i. \<not> P j)"
  by (auto simp: find_Some_iff)

lemma find_rev_upt_None: "List.find P (rev [0..<n]) = None \<longleftrightarrow> (\<forall>i<n. \<not> P i)"
  by (auto simp: find_None_iff)

lemma find_rev_upt_Some:
  "List.find P (rev [0..<n]) = Some i \<longleftrightarrow> i < n \<and> P i \<and> (\<forall>j. i < j \<and> j < n \<longrightarrow> \<not> P j)"
proof (induction n)
  case 0
  show ?case by simp
next
  case (Suc n)
  show ?case
  proof (cases "P n")
    case True
    then show ?thesis by (auto simp: less_Suc_eq)
  next
    case False
    then show ?thesis using Suc by (auto simp: less_Suc_eq)
  qed
qed

lemma matches_at_beyond: "matches_at s p i \<Longrightarrow> i + length p \<le> length s \<or> p = []"
proof (cases "p = []")
  case True
  then show ?thesis by simp
next
  case False
  assume "matches_at s p i"
  then have "length (take (length p) (drop i s)) = length p"
    by (simp add: matches_at_def)
  then have "length p \<le> length s - i" by simp
  moreover have "0 < length p" using False by simp
  ultimately show ?thesis by linarith
qed

lemma matches_at_le: "matches_at s p i \<Longrightarrow> p \<noteq> [] \<Longrightarrow> i + length p \<le> length s"
  using matches_at_beyond by blast

lemma matches_at_empty: "matches_at s [] i"
  by (simp add: matches_at_def)

lemma Index_cases:
  obtains (absent) "Index s p = - 1" "\<And>i. \<not> matches_at s p i"
  | (present) i where "Index s p = int i" "i \<le> length s" "matches_at s p i"
      "\<And>j. j < i \<Longrightarrow> \<not> matches_at s p j"
proof (cases "List.find (matches_at s p) [0..<Suc (length s)]")
  case None
  then have no: "\<forall>i<Suc (length s). \<not> matches_at s p i"
    by (simp only: find_upt_None)
  have "\<not> matches_at s p i" for i
  proof
    assume m: "matches_at s p i"
    show False
    proof (cases "p = []")
      case True
      then show ?thesis using no matches_at_empty by blast
    next
      case False
      then have "i + length p \<le> length s" using m matches_at_le by blast
      then show ?thesis using no m by auto
    qed
  qed
  moreover have "Index s p = - 1" using None by (simp add: Index_def)
  ultimately show ?thesis using absent by blast
next
  case (Some i)
  then have "i < Suc (length s) \<and> matches_at s p i \<and> (\<forall>j<i. \<not> matches_at s p j)"
    using find_upt_Some [of "matches_at s p" "Suc (length s)" i] by blast
  moreover have "Index s p = int i" using Some by (simp add: Index_def)
  ultimately show ?thesis using present by auto
qed

lemma Index_eqI:
  assumes "matches_at s p i" "\<And>j. j < i \<Longrightarrow> \<not> matches_at s p j"
  shows "Index s p = int i"
proof (cases s p rule: Index_cases)
  case absent
  then show ?thesis using assms by blast
next
  case (present k)
  have "k = i"
  proof (rule ccontr)
    assume "k \<noteq> i"
    then consider "k < i" | "i < k" by linarith
    then show False using present assms by cases auto
  qed
  then show ?thesis using present by simp
qed

lemma matches_at_drop: "matches_at (drop k s) p i = matches_at s p (i + k)"
  by (simp add: matches_at_def)

lemma Index_drop:
  assumes "Index s p = int i" "k \<le> i"
  shows "Index (drop k s) p = int (i - k)"
proof (cases s p rule: Index_cases)
  case absent
  then show ?thesis using assms by simp
next
  case (present i')
  then have [simp]: "i' = i" using assms by simp
  show ?thesis
  proof (rule Index_eqI)
    show "matches_at (drop k s) p (i - k)"
      using present assms by (simp add: matches_at_drop)
    show "\<not> matches_at (drop k s) p j" if "j < i - k" for j
      using that present(4) [of "j + k"] by (simp add: matches_at_drop)
  qed
qed

lemma matches_at_single: "matches_at s [c] i \<longleftrightarrow> i < length s \<and> s ! i = c"
  by (cases "i < length s") (auto simp: matches_at_def take_Suc_conv_app_nth hd_drop_conv_nth take_Suc)

lemma LastIndex_single_cases:
  obtains (absent) "LastIndex s [c] = - 1" "c \<notin> set s"
  | (present) j where "LastIndex s [c] = int j" "j < length s" "s ! j = c"
      "\<And>k. j < k \<Longrightarrow> k < length s \<Longrightarrow> s ! k \<noteq> c"
proof (cases "List.find (matches_at s [c]) (rev [0..<Suc (length s)])")
  case None
  then have "\<forall>i<Suc (length s). \<not> matches_at s [c] i"
    by (simp only: find_rev_upt_None)
  then have "c \<notin> set s" by (auto simp: matches_at_single in_set_conv_nth)
  moreover have "LastIndex s [c] = - 1" using None by (simp add: LastIndex_def)
  ultimately show ?thesis using absent by blast
next
  case (Some j)
  then have "j < Suc (length s) \<and> matches_at s [c] j
      \<and> (\<forall>k. j < k \<and> k < Suc (length s) \<longrightarrow> \<not> matches_at s [c] k)"
    using find_rev_upt_Some [of "matches_at s [c]" "Suc (length s)" j] by blast
  then have "j < length s" "s ! j = c" "\<And>k. j < k \<Longrightarrow> k < length s \<Longrightarrow> s ! k \<noteq> c"
    by (auto simp: matches_at_single)
  moreover have "LastIndex s [c] = int j" using Some by (simp add: LastIndex_def)
  ultimately show ?thesis using present by blast
qed


lemma nth_in_drop:
  assumes "k \<le> b" "b < length xs"
  shows "xs ! b \<in> set (drop k xs)"
proof -
  have "drop k xs ! (b - k) = xs ! b" using assms by simp
  moreover have "b - k < length (drop k xs)" using assms by simp
  ultimately show ?thesis by (metis nth_mem)
qed

lemma Index_bounds: "- 1 \<le> Index s p \<and> Index s p \<le> int (length s)"
  by (cases s p rule: Index_cases) auto

lemma slice_prefix: "0 \<le> hi \<Longrightarrow> hi \<le> int (length s) \<Longrightarrow> slice s 0 hi = Some (take (nat hi) s)"
  by (simp add: slice_def)

lemma slice_from_drop:
  "0 \<le> lo \<Longrightarrow> lo \<le> int (length s) \<Longrightarrow> slice_from s lo = Some (drop (nat lo) s)"
  by (simp add: slice_from_def slice_def)

section \<open>Truncation from the front\<close>

text \<open>
  With a non-negative \<open>n\<close> and the term first found at an offset \<open>i > n\<close>, no slice of
  \<open>fruncate\<close> is out of range, and the result is decided by the last space of the
  first \<open>i - n\<close> bytes.
\<close>

lemma fruncate_far:
  assumes "Index s p = int i" "n < int i" "0 \<le> n"
  shows "fruncate s p n m =
    (let cut = i - nat n; b = LastIndex (take cut s) '' '' in
     if 0 < b \<and> int cut - m \<le> b then Some (drop (nat (b + 1)) s) else Some (drop cut s))"
proof -
  define cut where "cut = i - nat n"
  have i: "i \<le> length s" using assms(1) Index_bounds [of s p] by simp
  have cut: "int i - n = int cut" "cut \<le> length s" "0 < cut"
    using assms i by (auto simp: cut_def)
  have front: "slice s 0 (int cut) = Some (take cut s)"
    using cut by (simp add: slice_prefix)
  have b: "LastIndex (take cut s) '' '' < int cut"
    by (cases rule: LastIndex_single_cases [where s = "take cut s" and c = "CHR '' ''"]) (use cut in auto)
  have tail: "slice_from s (LastIndex (take cut s) '' '' + 1)
      = Some (drop (nat (LastIndex (take cut s) '' '' + 1)) s)"
    if "0 < LastIndex (take cut s) '' ''"
    using that b cut by (intro slice_from_drop) auto
  have rest: "slice_from s (int cut) = Some (drop cut s)"
    using cut slice_from_drop [of "int cut" s] by simp
  show ?thesis
    unfolding fruncate_def Let_def cut_def [symmetric]
    using assms(1,2) cut(1) front tail rest by auto
qed

lemma Index_absent: "(\<And>i. \<not> matches_at s p i) \<Longrightarrow> Index s p = - 1"
  by (cases s p rule: Index_cases) auto

lemma Index_absent_iff: "Index s p = - 1 \<longleftrightarrow> (\<forall>i. \<not> matches_at s p i)"
proof
  assume "Index s p = - 1"
  then show "\<forall>i. \<not> matches_at s p i"
    by (cases s p rule: Index_cases) auto
next
  assume "\<forall>i. \<not> matches_at s p i"
  then show "Index s p = - 1" by (simp add: Index_absent)
qed

text \<open>
  Claim C8. When the first occurrence of the search term \<open>p\<close> in the line \<open>s\<close> is at
  an offset of at most 10, \<open>fruncate s p 10 5\<close> returns \<open>s\<close> unmodified. A term that
  occurs nowhere in \<open>s\<close> has the offset \<open>-1\<close> and falls under the same case.
\<close>

theorem fruncate_near_start_unmodified:
  "(Index s p \<le> 10 \<longrightarrow> fruncate s p 10 5 = Some s) \<and>
   ((\<forall>i. \<not> matches_at s p i) \<longrightarrow> Index s p = - 1 \<and> fruncate s p 10 5 = Some s)"
proof -
  have near: "fruncate s p 10 5 = Some s" if "Index s p \<le> 10"
    using that by (simp add: fruncate_def)
  have "Index s p = - 1 \<and> fruncate s p 10 5 = Some s" if "\<forall>i. \<not> matches_at s p i"
  proof -
    have "Index s p = - 1" using that by (simp add: Index_absent)
    then show ?thesis using near by simp
  qed
  then show ?thesis using near by blast
qed

text \<open>The term at offset 4, and a term that does not occur.\<close>

theorem fruncate_near_start_unmodified_witness:
  "Index ''the lazy dog'' ''lazy'' \<le> 10 \<and>
   fruncate ''the lazy dog'' ''lazy'' 10 5 = Some ''the lazy dog'' \<and>
   Index ''the lazy dog'' ''cat'' = - 1 \<and>
   fruncate ''the lazy dog'' ''cat'' 10 5 = Some ''the lazy dog''"
proof -
  have a: "Index ''the lazy dog'' ''lazy'' = 4" by code_simp
  have "Index ''the lazy dog'' ''cat'' = - 1" by code_simp
  then have b: "\<forall>i. \<not> matches_at ''the lazy dog'' ''cat'' i"
    using Index_absent_iff by blast
  show ?thesis
    using a b fruncate_near_start_unmodified [of "''the lazy dog''" "''lazy''"]
      fruncate_near_start_unmodified [of "''the lazy dog''" "''cat''"]
    by simp
qed

text \<open>
  Claim C1, as the code has it. Let the first occurrence of \<open>p\<close> in \<open>s\<close> be at an
  offset greater than 10 and \<open>cut\<close> be that offset minus 10. If the last space before
  \<open>cut\<close> is at a position \<open>j\<close> with \<open>j \<ge> cut - 5\<close> and \<open>j > 0\<close>, the result is the
  rest of \<open>s\<close> after that space. If no position \<open>j\<close> with \<open>j > 0\<close> and
  \<open>cut - 5 \<le> j < cut\<close> holds a space, the result is the rest of \<open>s\<close> from \<open>cut\<close> on.
  A space at position 0 is never a break point.
\<close>

theorem fruncate_window:
  assumes "Index s p > 10"
  shows "(0 < j \<and> j < nat (Index s p - 10) \<and> nat (Index s p - 10) \<le> j + 5 \<and> s ! j = CHR '' '' \<and>
          CHR '' '' \<notin> set (drop (Suc j) (take (nat (Index s p - 10)) s))
          \<longrightarrow> fruncate s p 10 5 = Some (drop (Suc j) s)) \<and>
         (CHR '' '' \<notin> set (drop (max 1 (nat (Index s p - 10) - 5)) (take (nat (Index s p - 10)) s))
          \<longrightarrow> fruncate s p 10 5 = Some (drop (nat (Index s p - 10)) s))"
proof -
  obtain i where i: "Index s p = int i" "10 < i" "i \<le> length s"
    using assms by (cases s p rule: Index_cases) auto
  define cut where "cut = i - 10"
  have cut: "nat (Index s p - 10) = cut" "0 < cut" "cut \<le> length s"
    using i by (auto simp: cut_def)
  have far: "fruncate s p 10 5 =
    (let b = LastIndex (take cut s) '' '' in
     if 0 < b \<and> int cut - 5 \<le> b then Some (drop (nat (b + 1)) s) else Some (drop cut s))"
    using fruncate_far [of s p i 10 5] i by (simp add: cut_def Let_def)
  have len: "length (take cut s) = cut" using cut by simp
  have first: "fruncate s p 10 5 = Some (drop (Suc j) s)"
    if j: "0 < j" "j < cut" "cut \<le> j + 5" "s ! j = CHR '' ''"
      "CHR '' '' \<notin> set (drop (Suc j) (take cut s))"
  proof (cases rule: LastIndex_single_cases [where s = "take cut s" and c = "CHR '' ''"])
    case absent
    then have "take cut s ! j \<noteq> CHR '' ''"
      using j(2) len by (metis nth_mem)
    then show ?thesis using j by simp
  next
    case (present b)
    have "b = j"
    proof (rule ccontr)
      assume "b \<noteq> j"
      then consider "b < j" | "j < b" by linarith
      then show False
      proof cases
        case 1
        moreover have "j < length (take cut s)" using j(2) len by linarith
        ultimately have "take cut s ! j \<noteq> CHR '' ''" by (rule present(4))
        then show ?thesis using j(2,4) by simp
      next
        case 2
        then have "Suc j \<le> b" by simp
        then have "take cut s ! b \<in> set (drop (Suc j) (take cut s))"
          using present(2) by (rule nth_in_drop)
        then show ?thesis using present(3) j(5) by simp
      qed
    qed
    then show ?thesis using far present(1) j by (simp add: Let_def nat_add_distrib)
  qed
  have second: "fruncate s p 10 5 = Some (drop cut s)"
    if w: "CHR '' '' \<notin> set (drop (max 1 (cut - 5)) (take cut s))"
  proof (cases rule: LastIndex_single_cases [where s = "take cut s" and c = "CHR '' ''"])
    case absent
    then show ?thesis using far by (simp add: Let_def)
  next
    case (present b)
    have "\<not> (0 < b \<and> cut \<le> b + 5)"
    proof
      assume h: "0 < b \<and> cut \<le> b + 5"
      define k where "k = max 1 (cut - 5)"
      have "k \<le> b" using h by (auto simp: k_def)
      then have "take cut s ! b \<in> set (drop k (take cut s))"
        using present(2) by (rule nth_in_drop)
      then show False using present(3) w by (simp add: k_def)
    qed
    then have "\<not> (0 < int b \<and> int cut - 5 \<le> int b)" by auto
    then show ?thesis using far present(1) by (simp only: Let_def if_False)
  qed
  show ?thesis unfolding cut(1) using first second by blast
qed


text \<open>
  A break at the space of position 25 (term at 40, \<open>cut = 30\<close>), and a cut with no
  space in the window (term at 35, \<open>cut = 25\<close>, positions 20 to 24 hold \<open>jumps\<close>).
\<close>

theorem fruncate_window_witness:
  "Index ''The quick brown fox jumps over the lazy dog'' ''dog'' > 10 \<and>
   fruncate ''The quick brown fox jumps over the lazy dog'' ''dog'' 10 5
     = Some ''over the lazy dog'' \<and>
   Index ''The quick brown fox jumps over the lazy dog'' ''lazy'' > 10 \<and>
   fruncate ''The quick brown fox jumps over the lazy dog'' ''lazy'' 10 5
     = Some '' over the lazy dog''"
proof -
  have a: "Index ''The quick brown fox jumps over the lazy dog'' ''dog'' = 40" by code_simp
  have b: "Index ''The quick brown fox jumps over the lazy dog'' ''lazy'' = 35" by code_simp
  show ?thesis
    using a b
      fruncate_window [of "''The quick brown fox jumps over the lazy dog''" "''dog''" 25]
      fruncate_window [of "''The quick brown fox jumps over the lazy dog''" "''lazy''" 0]
    by simp
qed

text \<open>
  Claim C1 as stated accepts a break at position 0. The line below starts with a
  space, the term is at offset 15, so \<open>cut = 5\<close> and the last space before \<open>cut\<close> is at
  position \<open>0 \<ge> cut - 5\<close>; the code returns the line from \<open>cut\<close> on, not the line after
  that space.
\<close>

theorem fruncate_leading_space_counterexample:
  "Index '' internationalization'' ''zation'' = 15 \<and>
   LastIndex (take 5 '' internationalization'') '' '' = 0 \<and>
   fruncate '' internationalization'' ''zation'' 10 5 = Some ''rnationalization'' \<and>
   fruncate '' internationalization'' ''zation'' 10 5 \<noteq> Some (drop 1 '' internationalization'')"
  by code_simp

text \<open>
  Claim C10. For non-negative \<open>n\<close> and \<open>m\<close>, \<open>fruncate s p n m\<close> returns (without a
  panic) a suffix \<open>drop k s\<close> of \<open>s\<close>, which is never longer than \<open>s\<close>; and when \<open>p\<close>
  occurs in \<open>s\<close>, at most the bytes before its first occurrence are dropped, so that
  this occurrence stands in full in the result and is the first one there.
\<close>

theorem fruncate_suffix:
  assumes "0 \<le> n" "0 \<le> m"
  shows "\<exists>k. fruncate s p n m = Some (drop k s) \<and> suffix (drop k s) s \<and>
           length (drop k s) \<le> length s \<and>
           (0 \<le> Index s p \<longrightarrow>
              int k \<le> Index s p \<and> Index (drop k s) p = Index s p - int k \<and>
              matches_at (drop k s) p (nat (Index s p) - k))"
proof -
  have keeps: "int k \<le> Index s p \<and> Index (drop k s) p = Index s p - int k \<and>
      matches_at (drop k s) p (nat (Index s p) - k)"
    if "Index s p = int i" "k \<le> i" for i k
  proof (cases s p rule: Index_cases)
    case absent
    then show ?thesis using that by simp
  next
    case (present i')
    then show ?thesis
      using that Index_drop [of s p i k] by (simp add: matches_at_drop)
  qed
  have goal: "\<exists>k. fruncate s p n m = Some (drop k s) \<and>
      (0 \<le> Index s p \<longrightarrow>
              int k \<le> Index s p \<and> Index (drop k s) p = Index s p - int k \<and>
              matches_at (drop k s) p (nat (Index s p) - k))"
  proof (cases "n < Index s p")
    case False
    have "fruncate s p n m = Some (drop 0 s)" using False by (simp add: fruncate_def)
    moreover have "0 \<le> Index s p \<longrightarrow> int 0 \<le> Index s p \<and> Index (drop 0 s) p = Index s p - int 0 \<and>
      matches_at (drop 0 s) p (nat (Index s p) - 0)"
      using keeps [of "nat (Index s p)" 0] by auto
    ultimately show ?thesis by blast
  next
    case True
    then obtain i where i: "Index s p = int i" "n < int i"
      using assms(1) by (cases s p rule: Index_cases) auto
    define cut where "cut = i - nat n"
    define b where "b = LastIndex (take cut s) '' ''"
    have cut: "cut \<le> i" "0 < cut" using i assms(1) by (auto simp: cut_def)
    have b: "b < int cut"
      unfolding b_def
      by (cases rule: LastIndex_single_cases [where s = "take cut s" and c = "CHR '' ''"])
        (use cut in auto)
    have far: "fruncate s p n m =
        (if 0 < b \<and> int cut - m \<le> b then Some (drop (nat (b + 1)) s) else Some (drop cut s))"
      using fruncate_far [OF i assms(1), of m] by (simp add: cut_def b_def Let_def)
    show ?thesis
    proof (cases "0 < b \<and> int cut - m \<le> b")
      case True
      then have "nat (b + 1) \<le> i" using b cut by linarith
      then show ?thesis using far True keeps [OF i(1)] i(1) by auto
    next
      case False
      then show ?thesis using far keeps [OF i(1) cut(1)] i(1) by auto
    qed
  qed
  then obtain k where "fruncate s p n m = Some (drop k s)"
    "0 \<le> Index s p \<longrightarrow>
              int k \<le> Index s p \<and> Index (drop k s) p = Index s p - int k \<and>
              matches_at (drop k s) p (nat (Index s p) - k)"
    by blast
  moreover have "suffix (drop k s) s" by (rule suffix_drop)
  ultimately show ?thesis by auto
qed

theorem fruncate_suffix_witness:
  "(0::int) \<le> 10 \<and> (0::int) \<le> 5 \<and> 0 \<le> Index ''The quick brown fox jumps over the lazy dog'' ''lazy'' \<and>
   (\<exists>k. fruncate ''The quick brown fox jumps over the lazy dog'' ''lazy'' 10 5
           = Some (drop k ''The quick brown fox jumps over the lazy dog'') \<and>
        int k \<le> Index ''The quick brown fox jumps over the lazy dog'' ''lazy'' \<and>
        Index (drop k ''The quick brown fox jumps over the lazy dog'') ''lazy''
           = Index ''The quick brown fox jumps over the lazy dog'' ''lazy'' - int k)"
proof -
  have b: "Index ''The quick brown fox jumps over the lazy dog'' ''lazy'' = 35" by code_simp
  show ?thesis
    using b fruncate_suffix [of 10 5 "''The quick brown fox jumps over the lazy dog''" "''lazy''"]
    by auto
qed

section \<open>The title\<close>

lemma HasSuffix_iff: "HasSuffix s suf \<longleftrightarrow> suffix suf s"
proof
  assume "HasSuffix s suf"
  then have "s = take (length s - length suf) s @ suf"
    by (metis HasSuffix_def append_take_drop_id)
  then show "suffix suf s" by (metis suffixI)
next
  assume "suffix suf s"
  then obtain stem where "s = stem @ suf" by (auto simp: suffix_def)
  then show "HasSuffix s suf" by (simp add: HasSuffix_def)
qed

text \<open>
  Claim C7. The title of a result item is \<open>withoutMd\<close> of the base filename, in
  filename mode and in content mode. For a name \<open>stem @ ''.md''\<close> it is \<open>stem\<close>:
  exactly the three trailing bytes are removed. For a name that does not end in
  \<open>.md\<close> it is the name unchanged.
\<close>

theorem withoutMd_strips_md:
  "withoutMd (stem @ ''.md'') = Some stem \<and>
   (\<not> suffix ''.md'' filename \<longrightarrow> withoutMd filename = Some filename) \<and>
   (match \<noteq> [] \<and> file_result vault match = Inr item \<longrightarrow>
      withoutMd (Base match) = Some (Title item)) \<and>
   (match_result searchTerm vault' record = Some item' \<longrightarrow>
      withoutMd (Base (Data_Path_Text record)) = Some (Title item'))"
proof -
  have "HasSuffix (stem @ ''.md'') ''.md''" by (simp add: HasSuffix_def)
  then have "withoutMd (stem @ ''.md'') = Some stem"
    by (simp add: withoutMd_def slice_def)
  moreover have "\<not> suffix ''.md'' filename \<longrightarrow> withoutMd filename = Some filename"
    by (simp add: withoutMd_def HasSuffix_iff)
  moreover have "match \<noteq> [] \<and> file_result vault match = Inr item \<longrightarrow>
      withoutMd (Base match) = Some (Title item)"
    by (auto simp: file_result_def split: option.splits)
  moreover have "match_result searchTerm vault' record = Some item' \<longrightarrow>
      withoutMd (Base (Data_Path_Text record)) = Some (Title item')"
    by (auto simp: match_result_def split: option.splits)
  ultimately show ?thesis by blast
qed

text \<open>
  \<open>Notes.md\<close> and \<open>plan.txt\<close>, as names and as the files of a result of each mode.
\<close>

theorem withoutMd_strips_md_witness:
  "withoutMd ''Notes.md'' = Some ''Notes'' \<and> \<not> suffix ''.md'' ''plan.txt'' \<and>
   withoutMd ''plan.txt'' = Some ''plan.txt'' \<and>
   file_result ''work'' ''notes/Notes.md''
     = Inr \<lparr>Type = ''default'', Title = ''Notes'', Subtitle = [],
            Arg = ''obsidian://open?vault=work&file=notes%2FNotes.md''\<rparr> \<and>
   withoutMd (Base ''notes/Notes.md'') = Some ''Notes'' \<and>
   match_result ''lazy'' ''work'' (sample_records ! 3)
     = Some \<lparr>Type = ''default'', Title = ''todo.txt'', Subtitle = ''never be lazy'',
             Arg = ''obsidian://open?vault=work&file=todo.txt''\<rparr> \<and>
   withoutMd (Base (Data_Path_Text (sample_records ! 3))) = Some ''todo.txt''"
proof -
  have a: "\<not> suffix ''.md'' ''plan.txt''" by (simp add: suffix_def)
  have b: "file_result ''work'' ''notes/Notes.md''
     = Inr \<lparr>Type = ''default'', Title = ''Notes'', Subtitle = [],
            Arg = ''obsidian://open?vault=work&file=notes%2FNotes.md''\<rparr>"
    by code_simp
  have c: "match_result ''lazy'' ''work'' (sample_records ! 3)
     = Some \<lparr>Type = ''default'', Title = ''todo.txt'', Subtitle = ''never be lazy'',
             Arg = ''obsidian://open?vault=work&file=todo.txt''\<rparr>"
    by code_simp
  show ?thesis
    using a b c
      withoutMd_strips_md [of "''Notes''" "''plan.txt''" "''notes/Notes.md''" "''work''"
        "\<lparr>Type = ''default'', Title = ''Notes'', Subtitle = [],
            Arg = ''obsidian://open?vault=work&file=notes%2FNotes.md''\<rparr>"
        "''lazy''" "''work''" "sample_records ! 3"
        "\<lparr>Type = ''default'', Title = ''todo.txt'', Subtitle = ''never be lazy'',
             Arg = ''obsidian://open?vault=work&file=todo.txt''\<rparr>"]
    by simp
qed

section \<open>The application URL\<close>

lemma less_16_cases:
  assumes "k < (16::nat)"
  obtains "k = 0" | "k = 1" | "k = 2" | "k = 3" | "k = 4" | "k = 5" | "k = 6" | "k = 7"
    | "k = 8" | "k = 9" | "k = 10" | "k = 11" | "k = 12" | "k = 13" | "k = 14" | "k = 15"
proof -
  have "k = 0 \<or> k = 1 \<or> k = 2 \<or> k = 3 \<or> k = 4 \<or> k = 5 \<or> k = 6 \<or> k = 7
    \<or> k = 8 \<or> k = 9 \<or> k = 10 \<or> k = 11 \<or> k = 12 \<or> k = 13 \<or> k = 14 \<or> k = 15"
    using assms by presburger
  then show thesis using that by blast
qed

lemma upperhex_digit:
  assumes "k < 16"
  shows "ishex (upperhex ! k)" "unhex (upperhex ! k) = k"
    "upperhex ! k \<noteq> CHR ''&''" "\<not> shouldEscape (upperhex ! k)"
  using assms
  by (cases k rule: less_16_cases;
      simp add: upperhex_def ishex_def unhex_def shouldEscape_def isAlnum_def)+

lemma of_char_split: "(of_char c :: nat) div 16 < 16" "(of_char c :: nat) mod 16 < 16"
  "(of_char c :: nat) div 16 * 16 + of_char c mod 16 = of_char c"
proof -
  have "(of_char c :: nat) < 256" by simp
  then show "(of_char c :: nat) div 16 < 16" by linarith
qed simp_all

lemma percent_escaped: "shouldEscape (CHR ''%'')"
  by (simp add: shouldEscape_def isAlnum_def)

lemma PathUnescape_escape_byte:
  "PathUnescape (escape_byte c @ rest) = map_option ((#) c) (PathUnescape rest)"
proof (cases "shouldEscape c")
  case True
  then show ?thesis
    using upperhex_digit(1,2) [OF of_char_split(1) [of c]]
      upperhex_digit(1,2) [OF of_char_split(2) [of c]] of_char_split(3) [of c]
    by (simp add: escape_byte_def)
next
  case False
  then have "c \<noteq> CHR ''%''" using percent_escaped by blast
  then show ?thesis using False by (simp add: escape_byte_def)
qed

lemma PathEscape_Cons: "PathEscape (c # cs) = escape_byte c @ PathEscape cs"
  by (simp add: PathEscape_def)

lemma PathUnescape_PathEscape: "PathUnescape (PathEscape path) = Some path"
proof (induction path)
  case Nil
  show ?case by (simp add: PathEscape_def)
next
  case (Cons c cs)
  then show ?case by (simp only: PathEscape_Cons PathUnescape_escape_byte) simp
qed

lemma count_escape_byte:
  "count_list (escape_byte c) (CHR ''&'') = (if c = CHR ''&'' then 1 else 0)"
proof (cases "shouldEscape c")
  case True
  then have "c \<noteq> CHR ''&''" by (auto simp: shouldEscape_def isAlnum_def)
  then show ?thesis
    using True upperhex_digit(3) [OF of_char_split(1) [of c]]
      upperhex_digit(3) [OF of_char_split(2) [of c]]
    by (simp add: escape_byte_def)
next
  case False
  then show ?thesis by (simp add: escape_byte_def)
qed

lemma count_PathEscape:
  "count_list (PathEscape path) (CHR ''&'') = count_list path (CHR ''&'')"
  by (induction path) (simp_all add: PathEscape_Cons count_escape_byte, simp add: PathEscape_def)

lemma set_escape_byte: "x \<in> set (escape_byte c) \<Longrightarrow> x = CHR ''%'' \<or> \<not> shouldEscape x"
  using upperhex_digit(4) [OF of_char_split(1) [of c]]
    upperhex_digit(4) [OF of_char_split(2) [of c]]
  by (auto simp: escape_byte_def split: if_splits)

lemma asObsidianUrl_ampersands:
  "count_list (asObsidianUrl path vault) (CHR ''&'')
     = 1 + count_list vault (CHR ''&'') + count_list path (CHR ''&'')"
  by (simp add: asObsidianUrl_def count_PathEscape)

lemma PathUnescape_plain:
  "CHR ''%'' \<notin> set xs \<Longrightarrow> PathUnescape (xs @ ys) = map_option ((@) xs) (PathUnescape ys)"
proof (induction xs)
  case Nil
  show ?case by (cases "PathUnescape ys") simp_all
next
  case (Cons x xs)
  then have "x \<noteq> CHR ''%''" "CHR ''%'' \<notin> set xs" by auto
  then show ?case using Cons.IH by (cases "PathUnescape ys") simp_all
qed

text \<open>
  Claim C2, as the code has it. The URL is the fixed text \<open>obsidian://open?vault=\<close>,
  the vault identifier copied as it is (it is not percent-encoded), \<open>&file=\<close> and the
  path escaped by \<open>url.PathEscape\<close>. The file part percent-decodes back to the
  original path and consists of \<open>%\<close> and of bytes that need no escape. The whole URL
  percent-decodes back to the vault identifier and the path when the vault
  identifier holds no \<open>%\<close>, and it has exactly one \<open>&\<close> when neither the vault
  identifier nor the path holds one.
\<close>

theorem asObsidianUrl_shape:
  "asObsidianUrl path vault = ''obsidian://open?vault='' @ vault @ ''&file='' @ PathEscape path \<and>
   PathUnescape (PathEscape path) = Some path \<and>
   (\<forall>x \<in> set (PathEscape path). x = CHR ''%'' \<or> \<not> shouldEscape x) \<and>
   (CHR ''%'' \<notin> set vault \<longrightarrow>
      PathUnescape (asObsidianUrl path vault)
        = Some (''obsidian://open?vault='' @ vault @ ''&file='' @ path)) \<and>
   (CHR ''&'' \<notin> set vault \<and> CHR ''&'' \<notin> set path \<longrightarrow>
      count_list (asObsidianUrl path vault) (CHR ''&'') = 1)"
proof -
  have enc: "\<forall>x \<in> set (PathEscape path). x = CHR ''%'' \<or> \<not> shouldEscape x"
    using set_escape_byte by (auto simp: PathEscape_def)
  have one: "count_list (asObsidianUrl path vault) (CHR ''&'') = 1"
    if "CHR ''&'' \<notin> set vault \<and> CHR ''&'' \<notin> set path"
    using that by (simp add: asObsidianUrl_ampersands count_list_0_iff)
  have whole: "PathUnescape (asObsidianUrl path vault)
        = Some (''obsidian://open?vault='' @ vault @ ''&file='' @ path)"
    if "CHR ''%'' \<notin> set vault"
  proof -
    have "CHR ''%'' \<notin> set (''obsidian://open?vault='' @ vault @ ''&file='')"
      using that by simp
    then have "PathUnescape ((''obsidian://open?vault='' @ vault @ ''&file='') @ PathEscape path)
        = map_option ((@) (''obsidian://open?vault='' @ vault @ ''&file=''))
            (PathUnescape (PathEscape path))"
      by (rule PathUnescape_plain)
    then show ?thesis by (simp add: asObsidianUrl_def PathUnescape_PathEscape)
  qed
  show ?thesis
    using enc one whole PathUnescape_PathEscape [of path] by (simp add: asObsidianUrl_def)
qed

text \<open>A path with a space and a slash in a vault named \<open>work\<close>.\<close>

theorem asObsidianUrl_shape_witness:
  "asObsidianUrl ''notes/My Plan.md'' ''work''
     = ''obsidian://open?vault=work&file=notes%2FMy%20Plan.md'' \<and>
   PathUnescape ''notes%2FMy%20Plan.md'' = Some ''notes/My Plan.md'' \<and>
   list_all (\<lambda>x. x = CHR ''%'' \<or> \<not> shouldEscape x) ''notes%2FMy%20Plan.md'' \<and>
   PathUnescape ''obsidian://open?vault=work&file=notes%2FMy%20Plan.md''
     = Some ''obsidian://open?vault=work&file=notes/My Plan.md'' \<and>
   count_list ''obsidian://open?vault=work&file=notes%2FMy%20Plan.md'' (CHR ''&'') = 1"
proof -
  have e: "PathEscape ''notes/My Plan.md'' = ''notes%2FMy%20Plan.md''" by code_simp
  have u: "asObsidianUrl ''notes/My Plan.md'' ''work''
     = ''obsidian://open?vault=work&file=notes%2FMy%20Plan.md''"
    by code_simp
  show ?thesis
    using asObsidianUrl_shape [of "''notes/My Plan.md''" "''work''"] unfolding e u
    by (simp add: list_all_iff)
qed

text \<open>
  Claim C2 as stated fails for a vault identifier and a path that hold \<open>&\<close>: both
  stand in the URL as they are, which then has three \<open>&\<close>.
\<close>

theorem asObsidianUrl_ampersand_counterexample:
  "asObsidianUrl ''Q&A.md'' ''R&D'' = ''obsidian://open?vault=R&D&file=Q&A.md'' \<and>
   count_list (asObsidianUrl ''Q&A.md'' ''R&D'') (CHR ''&'') \<noteq> 1"
  by code_simp

section \<open>Content mode: the loop over the lines\<close>

lemma withoutMd_defined: "\<exists>title. withoutMd filename = Some title"
proof (cases "HasSuffix filename ''.md''")
  case True
  then have "3 \<le> length filename" by (simp add: HasSuffix_def)
  then show ?thesis using True by (simp add: withoutMd_def slice_def)
next
  case False
  then show ?thesis by (simp add: withoutMd_def)
qed

lemma fruncate_defined:
  assumes "0 \<le> n"
  shows "\<exists>r. fruncate s p n m = Some r"
proof (cases "n < Index s p")
  case True
  then obtain i where "Index s p = int i" "n < int i"
    using assms by (cases s p rule: Index_cases) auto
  then show ?thesis using fruncate_far [OF _ _ assms, of s p i m] by (simp add: Let_def)
next
  case False
  then show ?thesis by (simp add: fruncate_def)
qed

lemma match_result_defined: "\<exists>x. match_result searchTerm vault r = Some x"
proof -
  obtain title where "withoutMd (Base (Data_Path_Text r)) = Some title"
    using withoutMd_defined by blast
  moreover have "\<exists>subtitle. fruncate (Data_Lines_Text r) searchTerm 10 5 = Some subtitle"
    by (rule fruncate_defined) simp
  then obtain subtitle where "fruncate (Data_Lines_Text r) searchTerm 10 5 = Some subtitle"
    by blast
  ultimately show ?thesis by (simp add: match_result_def)
qed

lemma grep_loop_match_new:
  assumes "HasPrefix line ''{''" "unmarshal w line rgr = Some rgr'" "is_match rgr'"
    "alreadyFound (Data_Path_Text rgr') = None" "match_result searchTerm vault rgr' = Some x"
  shows "grep_loop w searchTerm vault (line # lines) results rgr alreadyFound
    = grep_loop w searchTerm vault lines (append_slice results x) rgr'
        (alreadyFound(Data_Path_Text rgr' \<mapsto> True))"
proof -
  obtain title subtitle where parts: "withoutMd (Base (Data_Path_Text rgr')) = Some title"
    "fruncate (Data_Lines_Text rgr') searchTerm 10 5 = Some subtitle"
    "x = \<lparr>Type = ''default'', Title = title, Subtitle = subtitle,
           Arg = asObsidianUrl (Data_Path_Text rgr') vault\<rparr>"
    using assms(5) by (auto simp: match_result_def split: option.splits)
  have "Type_rg rgr' = ''match''" using assms(3) by (simp add: is_match_def)
  then show ?thesis
    using assms(1,2,4) parts by (simp add: Let_def)
qed

lemma grep_loop_match_seen:
  assumes "HasPrefix line ''{''" "unmarshal w line rgr = Some rgr'" "is_match rgr'"
    "alreadyFound (Data_Path_Text rgr') \<noteq> None"
  shows "grep_loop w searchTerm vault (line # lines) results rgr alreadyFound
    = grep_loop w searchTerm vault lines results rgr' alreadyFound"
  using assms by (auto simp: is_match_def Let_def)

lemma grep_loop_other:
  assumes "HasPrefix line ''{''" "unmarshal w line rgr = Some rgr'" "\<not> is_match rgr'"
  shows "grep_loop w searchTerm vault (line # lines) results rgr alreadyFound
    = grep_loop w searchTerm vault lines results rgr' alreadyFound"
  using assms by (simp add: is_match_def)

lemma slice_list_append: "slice_list (append_slice xs x) = slice_list xs @ [x]"
  by (cases xs) (simp_all add: slice_list_def append_slice_def)

lemma grep_loop_decoded:
  assumes "decoded w rgr lines = Some recs"
  shows "\<exists>r. grep_loop w searchTerm vault lines results rgr alreadyFound = Inr r \<and>
    map Some (slice_list r) = map Some (slice_list results) @
      map (match_result searchTerm vault) (first_new (dom alreadyFound) (filter is_match recs))"
  using assms
proof (induction lines arbitrary: results rgr alreadyFound recs)
  case Nil
  then show ?case by simp
next
  case (Cons line lines)
  show ?case
  proof (cases "HasPrefix line ''{''")
    case False
    then show ?thesis using Cons.IH [of rgr recs] Cons.prems by simp
  next
    case True
    then obtain rgr' recs' where u: "unmarshal w line rgr = Some rgr'"
      and d: "decoded w rgr' lines = Some recs'" and recs: "recs = rgr' # recs'"
      using Cons.prems by (auto split: option.splits)
    show ?thesis
    proof (cases "is_match rgr'")
      case False
      then show ?thesis
        using Cons.IH [OF d] grep_loop_other [OF True u False] recs by simp
    next
      case m: True
      show ?thesis
      proof (cases "alreadyFound (Data_Path_Text rgr')")
        case (Some b)
        then have "Data_Path_Text rgr' \<in> dom alreadyFound" by auto
        moreover have "alreadyFound (Data_Path_Text rgr') \<noteq> None" using Some by simp
        ultimately show ?thesis
          using Cons.IH [OF d] grep_loop_match_seen [where alreadyFound = alreadyFound, OF True u m] recs m by simp
      next
        case None
        obtain x where x: "match_result searchTerm vault rgr' = Some x"
          using match_result_defined by blast
        have new: "Data_Path_Text rgr' \<notin> dom alreadyFound" using None by auto
        obtain r where r: "grep_loop w searchTerm vault lines (append_slice results x) rgr'
              (alreadyFound(Data_Path_Text rgr' \<mapsto> True)) = Inr r"
          "map Some (slice_list r) = map Some (slice_list (append_slice results x)) @
             map (match_result searchTerm vault)
               (first_new (dom (alreadyFound(Data_Path_Text rgr' \<mapsto> True)))
                  (filter is_match recs'))"
          using Cons.IH [OF d] by blast
        have "grep_loop w searchTerm vault (line # lines) results rgr alreadyFound = Inr r"
          using grep_loop_match_new [where alreadyFound = alreadyFound, OF True u m None x] r(1) by simp
        moreover have "map Some (slice_list r) = map Some (slice_list results) @
            map (match_result searchTerm vault)
              (first_new (dom alreadyFound) (filter is_match recs))"
          using r(2) recs m new x by (simp add: slice_list_append)
        ultimately show ?thesis by blast
      qed
    qed
  qed
qed

lemma grep_loop_step:
  assumes "HasPrefix line ''{''" "unmarshal w line rgr = Some rgr'"
  shows "\<exists>results' alreadyFound'. \<forall>lines.
    grep_loop w searchTerm vault (line # lines) results rgr alreadyFound
      = grep_loop w searchTerm vault lines results' rgr' alreadyFound'"
proof (cases "is_match rgr'")
  case False
  then show ?thesis using grep_loop_other [OF assms False] by blast
next
  case m: True
  show ?thesis
  proof (cases "alreadyFound (Data_Path_Text rgr')")
    case None
    obtain x where x: "match_result searchTerm vault rgr' = Some x"
      using match_result_defined by blast
    show ?thesis
      using grep_loop_match_new [where alreadyFound = alreadyFound, OF assms m None x] by blast
  next
    case (Some b)
    then have "alreadyFound (Data_Path_Text rgr') \<noteq> None" by simp
    then show ?thesis
      using grep_loop_match_seen [where alreadyFound = alreadyFound, OF assms m] by blast
  qed
qed

lemma grep_loop_undecoded:
  assumes "decoded w rgr lines = None"
  shows "\<exists>l. l \<in> set lines \<and> HasPrefix l ''{'' \<and>
    grep_loop w searchTerm vault lines results rgr alreadyFound
      = Inl (Fatal (''could not parse '' @ l))"
  using assms
proof (induction lines arbitrary: results rgr alreadyFound)
  case Nil
  then show ?case by simp
next
  case (Cons line lines)
  show ?case
  proof (cases "HasPrefix line ''{''")
    case False
    then show ?thesis using Cons.IH [of rgr] Cons.prems by auto
  next
    case True
    show ?thesis
    proof (cases "unmarshal w line rgr")
      case None
      then show ?thesis using True by auto
    next
      case (Some rgr')
      then have d: "decoded w rgr' lines = None" using Cons.prems True by simp
      have "\<exists>results' alreadyFound'.
          grep_loop w searchTerm vault (line # lines) results rgr alreadyFound
          = grep_loop w searchTerm vault lines results' rgr' alreadyFound'"
        using grep_loop_step [OF True Some] by blast
      then show ?thesis using Cons.IH [OF d] by (metis list.set_intros(2))
    qed
  qed
qed

lemma grep_loop_filter:
  "grep_loop w searchTerm vault lines results rgr alreadyFound
     = grep_loop w searchTerm vault (filter (\<lambda>l. HasPrefix l ''{'') lines) results rgr alreadyFound"
proof (induction lines arbitrary: results rgr alreadyFound)
  case Nil
  show ?case by simp
next
  case (Cons line lines)
  show ?case
  proof (cases "HasPrefix line ''{''")
    case False
    then show ?thesis using Cons.IH by simp
  next
    case True
    show ?thesis
    proof (cases "unmarshal w line rgr")
      case None
      then show ?thesis using True by simp
    next
      case (Some rgr')
      obtain results' alreadyFound' where step: "\<And>ls.
          grep_loop w searchTerm vault (line # ls) results rgr alreadyFound
          = grep_loop w searchTerm vault ls results' rgr' alreadyFound'"
        using grep_loop_step [OF True Some] by blast
      have "grep_loop w searchTerm vault (line # lines) results rgr alreadyFound
          = grep_loop w searchTerm vault (filter (\<lambda>l. HasPrefix l ''{'') lines)
              results' rgr' alreadyFound'"
        using step [of lines] Cons.IH by simp
      also have "\<dots> = grep_loop w searchTerm vault
          (line # filter (\<lambda>l. HasPrefix l ''{'') lines) results rgr alreadyFound"
        using step [of "filter (\<lambda>l. HasPrefix l ''{'') lines"] by simp
      finally show ?thesis using True by simp
    qed
  qed
qed


section \<open>Content mode: one result for each file\<close>

lemma first_new_none:
  "f \<in> seen \<Longrightarrow> filter (\<lambda>x. Data_Path_Text x = f) (first_new seen rs) = []"
  by (induction rs arbitrary: seen) auto

lemma first_new_one:
  assumes "f \<notin> seen" "f \<in> Data_Path_Text ` set rs"
  shows "length (filter (\<lambda>x. Data_Path_Text x = f) (first_new seen rs)) = 1"
  using assms
proof (induction rs arbitrary: seen)
  case Nil
  then show ?case by simp
next
  case (Cons r rs)
  show ?case
  proof (cases "Data_Path_Text r = f")
    case True
    then show ?thesis using Cons.prems(1) first_new_none [of f "insert f seen" rs] by simp
  next
    case False
    then have "f \<in> Data_Path_Text ` set rs" using Cons.prems(2) by auto
    then show ?thesis
      using False Cons.IH [of seen] Cons.IH [of "insert (Data_Path_Text r) seen"] Cons.prems(1)
      by simp
  qed
qed

lemma first_new_find:
  "f \<notin> seen \<Longrightarrow>
   List.find (\<lambda>x. Data_Path_Text x = f) (first_new seen rs)
     = List.find (\<lambda>x. Data_Path_Text x = f) rs"
  by (induction rs arbitrary: seen) auto

text \<open>
  Claim C4. Take a content-search stream whose lines all decode, and its match
  records in the order of the stream. The run succeeds, and its result items are
  built, in this order, from the match records that are the first to carry their
  path. For every match record of the stream, exactly one of the records that give
  an item carries its path, and that one is the first match record of the stream
  with this path; the later ones give no item and no error.
\<close>

theorem grepMatchingFiles_dedup:
  assumes "decoded w zero_RipGrepResult (Split out (CHR 0x0A)) = Some recs"
  shows "\<exists>res. grepMatchingFiles_results w searchTerm vault out = Inr res \<and>
     map Some (slice_list (Items res))
       = map (match_result searchTerm vault) (first_per_path (filter is_match recs)) \<and>
     (\<forall>r \<in> set (filter is_match recs).
        length (filter (\<lambda>x. Data_Path_Text x = Data_Path_Text r)
                  (first_per_path (filter is_match recs))) = 1 \<and>
        List.find (\<lambda>x. Data_Path_Text x = Data_Path_Text r)
            (first_per_path (filter is_match recs))
          = List.find (\<lambda>x. Data_Path_Text x = Data_Path_Text r) (filter is_match recs))"
proof -
  have "\<exists>r. grep_loop w searchTerm vault (Split out (CHR 0x0A)) None
        zero_RipGrepResult Map.empty = Inr r \<and>
      map Some (slice_list r)
        = map (match_result searchTerm vault) (first_new {} (filter is_match recs))"
    using grep_loop_decoded [where results = None and alreadyFound = Map.empty
        and searchTerm = searchTerm and vault = vault, OF assms]
    by (simp add: slice_list_def)
  then obtain r where r: "grep_loop w searchTerm vault (Split out (CHR 0x0A)) None
        zero_RipGrepResult Map.empty = Inr r"
    "map Some (slice_list r)
        = map (match_result searchTerm vault) (first_new {} (filter is_match recs))"
    by blast
  have run: "grepMatchingFiles_results w searchTerm vault out = Inr \<lparr>Items = r\<rparr>"
    using r(1) by (simp add: grepMatchingFiles_results_def)
  have items: "map Some (slice_list (Items \<lparr>Items = r\<rparr>))
      = map (match_result searchTerm vault) (first_per_path (filter is_match recs))"
    using r(2) by (simp add: first_per_path_def)
  have once: "length (filter (\<lambda>x. Data_Path_Text x = Data_Path_Text m)
                  (first_per_path (filter is_match recs))) = 1 \<and>
        List.find (\<lambda>x. Data_Path_Text x = Data_Path_Text m)
            (first_per_path (filter is_match recs))
          = List.find (\<lambda>x. Data_Path_Text x = Data_Path_Text m) (filter is_match recs)"
    if "m \<in> set (filter is_match recs)" for m
  proof -
    have "Data_Path_Text m \<in> Data_Path_Text ` set (filter is_match recs)"
      using that by (rule imageI)
    then show ?thesis
      unfolding first_per_path_def
      using first_new_one [of "Data_Path_Text m" "{}"] first_new_find [of "Data_Path_Text m" "{}"]
      by simp
  qed
  show ?thesis using run items once by blast
qed

text \<open>
  The sample stream has a record of another type, an empty line and two match
  records for \<open>notes/Plan.md\<close>: that file has one item, with the line of the first.
\<close>

theorem grepMatchingFiles_dedup_witness:
  "decoded (sample_world sample_records sample_stream) zero_RipGrepResult
       (Split sample_stream (CHR 0x0A)) = Some sample_records \<and>
   grepMatchingFiles_results (sample_world sample_records sample_stream) ''lazy'' ''work''
       sample_stream
     = Inr \<lparr>Items = Some
         [\<lparr>Type = ''default'', Title = ''Plan'', Subtitle = ''lazy start'',
            Arg = ''obsidian://open?vault=work&file=notes%2FPlan.md''\<rparr>,
          \<lparr>Type = ''default'', Title = ''todo.txt'', Subtitle = ''never be lazy'',
            Arg = ''obsidian://open?vault=work&file=todo.txt''\<rparr>]\<rparr> \<and>
   length (filter (\<lambda>x. Data_Path_Text x = ''notes/Plan.md'')
             (first_per_path (filter is_match sample_records))) = 1"
proof -
  have d: "decoded (sample_world sample_records sample_stream) zero_RipGrepResult
       (Split sample_stream (CHR 0x0A)) = Some sample_records"
    by code_simp
  have m: "sample_records ! 1 \<in> set (filter is_match sample_records)"
    by (simp add: sample_records_def is_match_def)
  have p: "Data_Path_Text (sample_records ! 1) = ''notes/Plan.md''"
    by (simp add: sample_records_def)
  have e: "map (match_result ''lazy'' ''work'') (first_per_path (filter is_match sample_records))
      = map Some
         [\<lparr>Type = ''default'', Title = ''Plan'', Subtitle = ''lazy start'',
            Arg = ''obsidian://open?vault=work&file=notes%2FPlan.md''\<rparr>,
          \<lparr>Type = ''default'', Title = ''todo.txt'', Subtitle = ''never be lazy'',
            Arg = ''obsidian://open?vault=work&file=todo.txt''\<rparr>]"
    by code_simp
  obtain res where res:
    "grepMatchingFiles_results (sample_world sample_records sample_stream) ''lazy'' ''work''
       sample_stream = Inr res"
    "map Some (slice_list (Items res))
       = map (match_result ''lazy'' ''work'') (first_per_path (filter is_match sample_records))"
    "\<forall>r \<in> set (filter is_match sample_records).
        length (filter (\<lambda>x. Data_Path_Text x = Data_Path_Text r)
                  (first_per_path (filter is_match sample_records))) = 1"
    using grepMatchingFiles_dedup [OF d, of "''lazy''" "''work''"] by blast
  let ?items = "[\<lparr>Type = ''default'', Title = ''Plan'', Subtitle = ''lazy start'',
            Arg = ''obsidian://open?vault=work&file=notes%2FPlan.md''\<rparr>,
          \<lparr>Type = ''default'', Title = ''todo.txt'', Subtitle = ''never be lazy'',
            Arg = ''obsidian://open?vault=work&file=todo.txt''\<rparr>]"
  have "map Some (slice_list (Items res)) = map Some ?items"
    using res(2) e by (simp only:)
  then have "slice_list (Items res) = ?items"
    using inj_map_eq_map [OF inj_Some] by blast
  then have "Items res = Some ?items"
    by (cases "Items res") (simp_all add: slice_list_def)
  then have "res = \<lparr>Items = Some ?items\<rparr>"
    by (cases res) simp
  moreover have "length (filter (\<lambda>x. Data_Path_Text x = ''notes/Plan.md'')
             (first_per_path (filter is_match sample_records))) = 1"
    using res(3) m p by metis
  ultimately show ?thesis using d res(1) by simp
qed

section \<open>Content mode: lines that are skipped and lines that are fatal\<close>

text \<open>
  Claim C9. At any point of the loop over the lines of the content-search stream:
  the lines that do not start with \<open>{\<close> can be left out without any change of the
  outcome, so they give neither an error nor an item; if a line that starts with
  \<open>{\<close> fails to decode when the loop reaches it, the outcome is the fatal error that
  names this line, and no result set; and if all these lines decode, the outcome is
  a result set to which only the records of type \<open>match\<close> add items, the records of
  any other type being skipped without an error.
\<close>

theorem grep_loop_skips_and_fails:
  "grep_loop w searchTerm vault lines results rgr alreadyFound
     = grep_loop w searchTerm vault (filter (\<lambda>l. HasPrefix l ''{'') lines)
         results rgr alreadyFound \<and>
   (decoded w rgr lines = None \<longrightarrow>
      (\<exists>l. l \<in> set lines \<and> HasPrefix l ''{'' \<and>
         grep_loop w searchTerm vault lines results rgr alreadyFound
           = Inl (Fatal (''could not parse '' @ l)))) \<and>
   (\<forall>recs. decoded w rgr lines = Some recs \<longrightarrow>
      (\<exists>r. grep_loop w searchTerm vault lines results rgr alreadyFound = Inr r \<and>
         map Some (slice_list r) = map Some (slice_list results) @
           map (match_result searchTerm vault)
             (first_new (dom alreadyFound) (filter is_match recs))))"
  using grep_loop_filter [of w searchTerm vault lines results rgr alreadyFound]
    grep_loop_undecoded [of w rgr lines searchTerm vault results alreadyFound]
    grep_loop_decoded [of w rgr lines _ searchTerm vault results alreadyFound]
  by blast

text \<open>
  The sample stream followed by a line that starts with \<open>{\<close> and is not in the table
  of the decoder: the run is fatal. The sample stream itself: two items.
\<close>

theorem grep_loop_skips_and_fails_witness:
  "decoded (sample_world sample_records sample_stream) zero_RipGrepResult
       (Split (sample_stream @ ''{oops'') (CHR 0x0A)) = None \<and>
   (\<exists>l. l \<in> set (Split (sample_stream @ ''{oops'') (CHR 0x0A)) \<and> HasPrefix l ''{'' \<and>
      grep_loop (sample_world sample_records sample_stream) ''lazy'' ''work''
          (Split (sample_stream @ ''{oops'') (CHR 0x0A)) None zero_RipGrepResult Map.empty
        = Inl (Fatal (''could not parse '' @ l))) \<and>
   decoded (sample_world sample_records sample_stream) zero_RipGrepResult
       (Split sample_stream (CHR 0x0A)) = Some sample_records \<and>
   (\<exists>r. grep_loop (sample_world sample_records sample_stream) ''lazy'' ''work''
          (Split sample_stream (CHR 0x0A)) None zero_RipGrepResult Map.empty = Inr r \<and>
        length (slice_list r) = 2)"
proof -
  have bad: "decoded (sample_world sample_records sample_stream) zero_RipGrepResult
       (Split (sample_stream @ ''{oops'') (CHR 0x0A)) = None"
    by code_simp
  have good: "decoded (sample_world sample_records sample_stream) zero_RipGrepResult
       (Split sample_stream (CHR 0x0A)) = Some sample_records"
    by code_simp
  have n: "length (first_new {} (filter is_match sample_records)) = 2"
    by code_simp
  have fatal: "\<exists>l. l \<in> set (Split (sample_stream @ ''{oops'') (CHR 0x0A)) \<and> HasPrefix l ''{'' \<and>
      grep_loop (sample_world sample_records sample_stream) ''lazy'' ''work''
          (Split (sample_stream @ ''{oops'') (CHR 0x0A)) None zero_RipGrepResult Map.empty
        = Inl (Fatal (''could not parse '' @ l))"
    using bad grep_loop_skips_and_fails
      [of "sample_world sample_records sample_stream" "''lazy''" "''work''"
        "Split (sample_stream @ ''{oops'') (CHR 0x0A)" None zero_RipGrepResult Map.empty]
    by blast
  obtain r where r: "grep_loop (sample_world sample_records sample_stream) ''lazy'' ''work''
          (Split sample_stream (CHR 0x0A)) None zero_RipGrepResult Map.empty = Inr r"
    "map Some (slice_list r) = map Some (slice_list None) @
           map (match_result ''lazy'' ''work'')
             (first_new (dom (Map.empty :: string \<rightharpoonup> bool)) (filter is_match sample_records))"
    using good grep_loop_skips_and_fails
      [of "sample_world sample_records sample_stream" "''lazy''" "''work''"
        "Split sample_stream (CHR 0x0A)" None zero_RipGrepResult Map.empty]
    by blast
  have "length (map Some (slice_list r)) = 2"
    unfolding r(2) using n by (simp add: slice_list_def)
  then have "length (slice_list r) = 2" by simp
  then show ?thesis using bad good fatal r(1) by blast
qed

section \<open>Filename mode\<close>

lemma Split_nonempty: "Split s sep \<noteq> []"
  by (induction s) (auto split: list.splits)

lemma length_Split: "length (Split s sep) = Suc (count_list s sep)"
  by (induction s) (use Split_nonempty in \<open>auto split: list.splits\<close>)

lemma file_result_defined: "\<exists>r. file_result vault match = Inr r"
  using withoutMd_defined [of "Base match"] by (auto simp: file_result_def)

lemma file_results_slots:
  "\<exists>rs. file_results vault ms = Inr rs \<and> list_all2 (\<lambda>m r. file_result vault m = Inr r) ms rs"
proof (induction ms)
  case Nil
  show ?case by simp
next
  case (Cons m ms)
  then show ?case using file_result_defined [of vault m] by auto
qed

text \<open>
  Every piece of the output has its slot in the result of filename mode, the empty
  pieces too: there is one more item than there are null bytes.
\<close>

lemma findMatchingFiles_results_slots:
  "\<exists>items. findMatchingFiles_results out vault = Inr \<lparr>Items = Some items\<rparr> \<and>
     length items = Suc (count_list out (CHR 0x00)) \<and>
     list_all2 (\<lambda>m r. file_result vault m = Inr r) (Split out (CHR 0x00)) items"
proof -
  obtain rs where rs: "file_results vault (Split out (CHR 0x00)) = Inr rs"
    "list_all2 (\<lambda>m r. file_result vault m = Inr r) (Split out (CHR 0x00)) rs"
    using file_results_slots by blast
  then have "length rs = Suc (count_list out (CHR 0x00))"
    using list_all2_lengthD [OF rs(2)] by (simp add: length_Split)
  then show ?thesis using rs by (simp add: findMatchingFiles_results_def)
qed

text \<open>
  Claim C3 says that the result of filename mode has exactly one item for each
  non-empty piece of the output between null bytes, none for an empty piece, and
  that every item has the kind \<open>default\<close>. The code does otherwise. The file-finder
  ends every path with a null byte, so its output for \<open>Notes.md\<close> and \<open>plan.txt\<close>
  splits into these two names and an empty piece, and the result has three items:
  the slot of the empty piece keeps the zero value, whose kind is the empty string.
\<close>

theorem findMatchingFiles_empty_piece_item:
  "findMatchingFiles_results (''Notes.md'' @ [CHR 0x00] @ ''plan.txt'' @ [CHR 0x00]) ''work''
     = Inr \<lparr>Items = Some
         [\<lparr>Type = ''default'', Title = ''Notes'', Subtitle = '''',
            Arg = ''obsidian://open?vault=work&file=Notes.md''\<rparr>,
          \<lparr>Type = ''default'', Title = ''plan.txt'', Subtitle = '''',
            Arg = ''obsidian://open?vault=work&file=plan.txt''\<rparr>,
          \<lparr>Type = '''', Title = '''', Subtitle = '''', Arg = ''''\<rparr>]\<rparr>"
  by code_simp

section \<open>The vault name and the vault path\<close>

text \<open>
  The earlier file stops before any search when the vault name or the vault path is
  empty, whatever the world is.
\<close>

lemma main_Plain_requires_vault:
  "vaultName cmd = '''' \<Longrightarrow>
     main Plain w prog cmd = Inl (Fatal ''vault name must be specified with --vault'')"
  "vaultName cmd \<noteq> '''' \<Longrightarrow> vaultPath cmd = '''' \<Longrightarrow>
     main Plain w prog cmd = Inl (Fatal ''vault path must be specified with --path'')"
  by (simp_all add: main_def)

text \<open>
  \<open>osearch.go\<close> has no such check: when the registry has no open vault, the values of
  the flags go to the search as they are, empty or not.
\<close>

lemma main_Registry_unchecked:
  assumes "getDefaults w (expandHome w ObsidianConfigFile) = Inr ('''', '''')"
  shows "main Registry w prog cmd = main_search Registry w prog cmd (vaultName cmd) (vaultPath cmd)"
  using assms by (simp add: main_def)

text \<open>
  Claim C5 says that the program stops with a fatal configuration error, before any
  search, when no vault name or no vault path is resolved. \<open>osearch.go\<close> does
  otherwise. The registry of the sample world has no vault, no \<open>--vault\<close> is given,
  and \<open>--path\<close> names a directory that exists: the search runs and the program
  prints results for the vault with the empty name.
\<close>

theorem main_Registry_searches_without_vault:
  "main Registry (sample_world [] (''plan.txt'' @ [CHR 0x00])) ''osearch''
       \<lparr>grepMode = False, vaultName = '''', vaultPath = ''/vault'', args = [''plan'']\<rparr>
     = Inr (main_output \<lparr>Items = Some
         [\<lparr>Type = ''default'', Title = ''plan.txt'', Subtitle = '''',
            Arg = ''obsidian://open?vault=&file=plan.txt''\<rparr>,
          \<lparr>Type = '''', Title = '''', Subtitle = '''', Arg = ''''\<rparr>]\<rparr>)"
  by code_simp

text \<open>A failure of the search is the outcome of the program: nothing is printed.\<close>

lemma main_search_failure:
  assumes "args cmd \<noteq> []"
    "(if grepMode cmd
      then grepMatchingFiles v w (Join (args cmd) '' '') (expandHome w path) name
      else findMatchingFiles v w (Join (args cmd) '' '') (expandHome w path) name) = Inl e"
  shows "main_search v w prog cmd name path = Inl e"
proof -
  have "1 \<le> length (args cmd)" using assms(1) by (cases "args cmd") simp_all
  then show ?thesis using assms(2) by (simp add: main_search_def Let_def)
qed

section \<open>The output\<close>

text \<open>
  The result of content mode without any match is the \<open>nil\<close> slice, which is written
  as \<open>null\<close>.
\<close>

lemma main_output_nil:
  "main_output \<lparr>Items = None\<rparr>
     = ''{'' @ [CHR 0x0A] @ ''  '' @ json_string ''items'' @ '': null'' @ [CHR 0x0A] @
       ''}'' @ [CHR 0x0A]"
  by code_simp

text \<open>
  Claim C6 says that the bytes written to standard output are a valid JSON document
  for every result set. The code does otherwise when a string of the result set
  holds a backslash followed by \<open>u0026\<close>, here the matched line of a search in
  content mode. The encoder doubles the backslash, which is valid JSON; the
  replacement then turns the second backslash and \<open>u0026\<close> into \<open>&\<close>, and the output
  holds a backslash followed by \<open>&\<close> (at offset 94), which is no escape of JSON.
\<close>

theorem main_output_breaks_escaped_backslash:
  "main Plain (sample_world [escaped_line_record] (rg_line escaped_line_record @ [CHR 0x0A]))
       ''osearch''
       \<lparr>grepMode = True, vaultName = ''work'', vaultPath = ''/vault'', args = [''write'']\<rparr>
     = Inr (main_output escaped_line_results) \<and>
   json_escapes_ok (MarshalIndent escaped_line_results) \<and>
   Index (main_output escaped_line_results) [CHR 0x5C, CHR ''&''] = 94 \<and>
   \<not> json_escapes_ok (main_output escaped_line_results)"
  by code_simp

text \<open>
  What the replacement does achieve: the output never holds a backslash followed by
  \<open>u0026\<close>.
\<close>

lemma matches_at_prefix: "matches_at s p i \<longleftrightarrow> prefix p (drop i s)"
proof
  assume "matches_at s p i"
  then have "drop i s = p @ drop (length p) (drop i s)"
    by (metis matches_at_def append_take_drop_id)
  then show "prefix p (drop i s)" by (metis prefixI)
next
  assume "prefix p (drop i s)"
  then obtain r where "drop i s = p @ r" by (auto simp: prefix_def)
  then show "matches_at s p i" by (simp add: matches_at_def)
qed

lemma Replace_prefix_kept:
  assumes "CHR ''&'' \<notin> set xs" "prefix xs (Replace cs old ''&'')"
  shows "prefix xs cs"
  using assms
proof (induction xs arbitrary: cs)
  case Nil
  show ?case by simp
next
  case (Cons x xs)
  then obtain c cs' where cs: "cs = c # cs'" by (cases cs) auto
  show ?case
  proof (cases "old \<noteq> [] \<and> take (length old) (c # cs') = old")
    case True
    then have "Replace cs old ''&'' = CHR ''&'' # Replace (drop (length old - 1) cs') old ''&''"
      using cs by simp
    then show ?thesis using Cons.prems by auto
  next
    case False
    then have "Replace cs old ''&'' = c # Replace cs' old ''&''" using cs by auto
    then show ?thesis using Cons cs by auto
  qed
qed

lemma Replace_leaves_none:
  assumes "new = ''&''" "CHR ''&'' \<notin> set old" "old \<noteq> []"
  shows "\<not> prefix old (drop i (Replace s old new))"
  using assms
proof (induction s old new arbitrary: i rule: Replace.induct)
  case (1 old new)
  then show ?case by simp
next
  case (2 c cs old new)
  show ?case
  proof (cases "take (length old) (c # cs) = old")
    case True
    then have r: "Replace (c # cs) old new = CHR ''&'' # Replace (drop (length old - 1) cs) old new"
      using "2.prems" by simp
    show ?thesis
    proof (cases i)
      case 0
      then show ?thesis using r "2.prems" by (cases old) auto
    next
      case (Suc j)
      then show ?thesis using r "2.IH"(1) [of j] True "2.prems" by simp
    qed
  next
    case False
    then have r: "Replace (c # cs) old new = c # Replace cs old new" by simp
    show ?thesis
    proof (cases i)
      case (Suc j)
      then show ?thesis using r "2.IH"(2) [of j] False "2.prems" by simp
    next
      case 0
      show ?thesis
      proof
        assume "prefix old (drop i (Replace (c # cs) old new))"
        then have p: "prefix old (c # Replace cs old ''&'')" using 0 r "2.prems"(1) by simp
        obtain b rest where old: "old = b # rest" using "2.prems"(3) by (cases old) auto
        then have "b = c" "prefix rest (Replace cs old ''&'')" using p by auto
        moreover have "CHR ''&'' \<notin> set rest" using "2.prems"(2) old by simp
        ultimately have "prefix rest cs" using Replace_prefix_kept by blast
        then have "prefix old (c # cs)" using old \<open>b = c\<close> by simp
        then have "take (length old) (c # cs) = old"
          by (metis append_eq_conv_conj prefix_def)
        then show False using False by simp
      qed
    qed
  qed
qed

lemma matches_at_snoc:
  assumes "c \<notin> set p" "p \<noteq> []" "matches_at (s @ [c]) p i"
  shows "matches_at s p i"
proof -
  have le: "i + length p \<le> length s + 1"
    using matches_at_le [OF assms(3,2)] by simp
  have "0 < length p" using assms(2) by simp
  then have i: "i \<le> length s" using le by linarith
  have m: "take (length p) (drop i s @ [c]) = p"
    using assms(3) i by (simp add: matches_at_def)
  show ?thesis
  proof (cases "i + length p \<le> length s")
    case True
    then show ?thesis using m by (simp add: matches_at_def)
  next
    case False
    then have "length p = length (drop i s @ [c])" using le i by simp
    then have "p = drop i s @ [c]" using m by simp
    then show ?thesis using assms(1) by simp
  qed
qed

lemma main_output_no_escaped_ampersand:
  "\<not> matches_at (main_output results) ([CHR 0x5C] @ ''u0026'') i"
proof
  assume "matches_at (main_output results) ([CHR 0x5C] @ ''u0026'') i"
  then have "matches_at (Replace (MarshalIndent results) ([CHR 0x5C] @ ''u0026'') ''&'')
      ([CHR 0x5C] @ ''u0026'') i"
    unfolding main_output_def by (rule matches_at_snoc [rotated -1]) simp_all
  then show False
    using Replace_leaves_none [of "''&''" "[CHR 0x5C] @ ''u0026''" i "MarshalIndent results"]
    by (simp add: matches_at_prefix)
qed

end
